theory Spec2Isabelle
  imports Main "HOL-Library.Word" "HOL-Library.Char_ord" "HOL-Library.List_Lexorder"
begin

section \<open>Data model\<close>

text \<open>
  Go strings are byte sequences and compare byte-wise; they are HOL strings under the
  lexicographic order on lists of characters.  A resource version is a \<open>uint64\<close>.
  \<open>runtime.Object\<close> is opaque and is the type parameter \<open>'o\<close>; \<open>labels.Set\<close> and
  \<open>fields.Set\<close> are association lists.
\<close>

type_synonym rv = "64 word"
type_synonym attrs = "(string \<times> string) list"

datatype expired = TooOld rv | TooOldOldest rv rv

datatype error =
    ObjNil
  | NotAStoreElement
  | NotARuntimeObject
  | KeyError error
  | CouldntComputeKey error
  | ObjDoesNotExist
  | IndexEntryError string string error
  | IndexDoesNotExist string
  | KeyNotInStore string
  | Injected string
  | NotInitialized
  | ResourceExpired expired
  | TooLargeResourceVersion rv rv nat
  | BadRequest error
  | ContinueNotValid string
  | ContinueBadResourceVersion
  | ContinueEmptyStartKey
  | ContinueBadKey string
  | ContinueUnknownVersion string
  | RuntimePanic
  | FatalUnlockOfUnlockedRWMutex

record 'o storeElement =
  Key :: string
  Object :: 'o
  Labels :: attrs
  Fields :: attrs

text \<open>An \<open>interface{}\<close> argument of the store: nil, a \<open>*storeElement\<close>, or anything else.\<close>

datatype 'o iface = NilObj | StoreElem "'o storeElement" | OtherObj

definition Less :: "'o storeElement \<Rightarrow> 'o storeElement \<Rightarrow> bool" where
  "Less t than = (Key t < Key than)"

definition storeElementKey :: "'o iface \<Rightarrow> error + string" where
  "storeElementKey obj = (case obj of StoreElem elem \<Rightarrow> Inr (Key elem) | _ \<Rightarrow> Inl NotAStoreElement)"

definition storeElementObject :: "'o iface \<Rightarrow> error + 'o" where
  "storeElementObject obj = (case obj of StoreElem elem \<Rightarrow> Inr (Object elem) | _ \<Rightarrow> Inl NotAStoreElement)"

definition storeElementIndexFunc :: "('o \<Rightarrow> error + string list) \<Rightarrow> 'o iface \<Rightarrow> error + string list" where
  "storeElementIndexFunc objIndexFunc obj =
     (case storeElementObject obj of Inl err \<Rightarrow> Inl err | Inr seo \<Rightarrow> objIndexFunc seo)"

definition HasPrefix :: "string \<Rightarrow> string \<Rightarrow> bool" where
  "HasPrefix s p = (length p \<le> length s \<and> take (length p) s = p)"

definition HasSuffix :: "string \<Rightarrow> string \<Rightarrow> bool" where
  "HasSuffix s p = (length p \<le> length s \<and> drop (length s - length p) s = p)"

section \<open>The ordered tree\<close>

text \<open>
  The B-tree of the \<open>btree\<close> package is represented by the ascending list of its items.
  Two items are the same entry when neither is \<open>Less\<close> than the other.  \<open>Ascend\<close> calls
  the iterator on each item in order until it returns false; the iterator's captured
  variables are the state \<open>'s\<close>.  A pivot is used only through \<open>Less\<close>, that is through
  its key.  \<open>Clone\<close> shares structure copy-on-write, so a clone is the same list value.
\<close>

type_synonym 'o btree = "'o storeElement list"

fun tree_ReplaceOrInsert :: "'o storeElement \<Rightarrow> 'o btree \<Rightarrow> 'o storeElement option \<times> 'o btree" where
  "tree_ReplaceOrInsert x [] = (None, [x])"
| "tree_ReplaceOrInsert x (y # ys) =
     (if Less x y then (None, x # y # ys)
      else if Less y x then (case tree_ReplaceOrInsert x ys of (r, ys') \<Rightarrow> (r, y # ys'))
      else (Some y, x # ys))"

fun tree_Delete :: "'o storeElement \<Rightarrow> 'o btree \<Rightarrow> 'o storeElement option \<times> 'o btree" where
  "tree_Delete x [] = (None, [])"
| "tree_Delete x (y # ys) =
     (if Less x y then (None, y # ys)
      else if Less y x then (case tree_Delete x ys of (r, ys') \<Rightarrow> (r, y # ys'))
      else (Some y, ys))"

fun tree_Get :: "'o storeElement \<Rightarrow> 'o btree \<Rightarrow> 'o storeElement option" where
  "tree_Get x [] = None"
| "tree_Get x (y # ys) =
     (if Less x y then None else if Less y x then tree_Get x ys else Some y)"

fun tree_Ascend :: "('o storeElement \<Rightarrow> 's \<Rightarrow> 's \<times> bool) \<Rightarrow> 'o btree \<Rightarrow> 's \<Rightarrow> 's" where
  "tree_Ascend f [] s = s"
| "tree_Ascend f (x # xs) s =
     (case f x s of (s', continue) \<Rightarrow> if continue then tree_Ascend f xs s' else s')"

definition tree_AscendGreaterOrEqual ::
  "string \<Rightarrow> ('o storeElement \<Rightarrow> 's \<Rightarrow> 's \<times> bool) \<Rightarrow> 'o btree \<Rightarrow> 's \<Rightarrow> 's" where
  "tree_AscendGreaterOrEqual pivot f t s = tree_Ascend f (dropWhile (\<lambda>x. Key x < pivot) t) s"

definition tree_inv :: "'o btree \<Rightarrow> bool" where
  "tree_inv t = sorted_wrt (<) (map Key t)"

section \<open>btreeStore\<close>

type_synonym index = "string \<rightharpoonup> string set"
type_synonym indices = "string \<rightharpoonup> index"

record 'o btreeStore =
  tree :: "'o btree"
  indices :: indices
  indexers :: "(string \<times> ('o iface \<Rightarrow> error + string list)) list"
  keyFunc :: "('o iface \<Rightarrow> error + string) option"

text \<open>
  \<open>newBtreeStore\<close> fills the tree, the indices and the indexers; it leaves \<open>keyFunc\<close>
  nil, and calling a nil function panics.
\<close>

definition newBtreeStore ::
  "('o iface \<Rightarrow> error + string) \<Rightarrow> (string \<times> ('o iface \<Rightarrow> error + string list)) list \<Rightarrow> nat
     \<Rightarrow> 'o btreeStore" where
  "newBtreeStore kf ixs degree = \<lparr>tree = [], indices = Map.empty, indexers = ixs, keyFunc = None\<rparr>"

definition addKeyToIndexLocked :: "string \<Rightarrow> string \<Rightarrow> index \<Rightarrow> index" where
  "addKeyToIndexLocked key val ix =
     (case ix val of None \<Rightarrow> ix(val \<mapsto> {key}) | Some st \<Rightarrow> ix(val \<mapsto> insert key st))"

definition deleteKeyFromIndexLocked :: "string \<Rightarrow> string \<Rightarrow> index \<Rightarrow> index" where
  "deleteKeyFromIndexLocked key val ix =
     (case ix val of
        None \<Rightarrow> ix
      | Some st \<Rightarrow> (if st - {key} = {} then ix(val := None) else ix(val \<mapsto> st - {key})))"

text \<open>
  The loop of \<open>updateIndicesLocked\<close> over the indexers (a Go map, visited in some order:
  the order of the list).
\<close>

fun updateIndicesLocked_loop ::
  "(string \<times> ('o iface \<Rightarrow> error + string list)) list \<Rightarrow> 'o iface \<Rightarrow> 'o iface \<Rightarrow> string
     \<Rightarrow> indices \<Rightarrow> error option \<times> indices" where
  "updateIndicesLocked_loop [] oldObj newObj key ixs = (None, ixs)"
| "updateIndicesLocked_loop ((name, indexFunc) # rest) oldObj newObj key ixs =
     (case (if oldObj \<noteq> NilObj then indexFunc oldObj else Inr []) of
        Inl err \<Rightarrow> (Some (IndexEntryError key name err), ixs)
      | Inr oldIndexValues \<Rightarrow>
          (case (if newObj \<noteq> NilObj then indexFunc newObj else Inr []) of
             Inl err \<Rightarrow> (Some (IndexEntryError key name err), ixs)
           | Inr indexValues \<Rightarrow>
               (let ix = (case ixs name of None \<Rightarrow> Map.empty | Some i \<Rightarrow> i);
                    ixs1 = ixs(name \<mapsto> ix)
                in if length indexValues = 1 \<and> length oldIndexValues = 1
                      \<and> take 1 indexValues = take 1 oldIndexValues
                   then updateIndicesLocked_loop rest oldObj newObj key ixs1
                   else updateIndicesLocked_loop rest oldObj newObj key
                          (ixs1(name \<mapsto>
                             fold (addKeyToIndexLocked key) indexValues
                               (fold (deleteKeyFromIndexLocked key) oldIndexValues ix))))))"

definition updateIndicesLocked ::
  "'o iface \<Rightarrow> 'o iface \<Rightarrow> string \<Rightarrow> 'o btreeStore \<Rightarrow> error option \<times> 'o btreeStore" where
  "updateIndicesLocked oldObj newObj key t =
     (case updateIndicesLocked_loop (indexers t) oldObj newObj key (indices t) of
        (err, ixs) \<Rightarrow> (err, t\<lparr>indices := ixs\<rparr>))"

definition addOrUpdateLocked :: "'o iface \<Rightarrow> 'o btreeStore \<Rightarrow> error option \<times> 'o btreeStore" where
  "addOrUpdateLocked obj t =
     (case obj of
        NilObj \<Rightarrow> (Some ObjNil, t)
      | OtherObj \<Rightarrow> (Some NotAStoreElement, t)
      | StoreElem storeElem \<Rightarrow>
          (case tree_ReplaceOrInsert storeElem (tree t) of
             (returned, tr) \<Rightarrow>
               (let t1 = t\<lparr>tree := tr\<rparr> in
                case keyFunc t1 of
                  None \<Rightarrow> (Some RuntimePanic, t1)
                | Some kf \<Rightarrow>
                    (case kf obj of
                       Inl err \<Rightarrow> (Some (KeyError err), t1)
                     | Inr key \<Rightarrow>
                         (case returned of
                            None \<Rightarrow> updateIndicesLocked NilObj obj key t1
                          | Some old \<Rightarrow> updateIndicesLocked (StoreElem old) (StoreElem storeElem) key t1)))))"

definition btreeStore_Add :: "'o iface \<Rightarrow> 'o btreeStore \<Rightarrow> error option \<times> 'o btreeStore" where
  "btreeStore_Add obj t = addOrUpdateLocked obj t"

definition btreeStore_Update :: "'o iface \<Rightarrow> 'o btreeStore \<Rightarrow> error option \<times> 'o btreeStore" where
  "btreeStore_Update obj t = addOrUpdateLocked obj t"

definition btreeStore_Delete :: "'o iface \<Rightarrow> 'o btreeStore \<Rightarrow> error option \<times> 'o btreeStore" where
  "btreeStore_Delete obj t =
     (case obj of
        StoreElem storeElem \<Rightarrow>
          (case keyFunc t of
             None \<Rightarrow> (Some RuntimePanic, t)
           | Some kf \<Rightarrow>
               (case kf obj of
                  Inl err \<Rightarrow> (Some (KeyError err), t)
                | Inr key \<Rightarrow>
                    (case updateIndicesLocked obj NilObj key t of
                       (Some err, t1) \<Rightarrow> (Some err, t1)
                     | (None, t1) \<Rightarrow>
                         (case tree_Delete storeElem (tree t1) of
                            (None, tr) \<Rightarrow> (Some ObjDoesNotExist, t1\<lparr>tree := tr\<rparr>)
                          | (Some item, tr) \<Rightarrow> (None, t1\<lparr>tree := tr\<rparr>)))))
      | _ \<Rightarrow> (Some NotAStoreElement, t))"

definition btreeStore_List :: "'o btreeStore \<Rightarrow> 'o storeElement list" where
  "btreeStore_List t = tree_Ascend (\<lambda>i items. (items @ [i], True)) (tree t) []"

definition btreeStore_ListKeys :: "'o btreeStore \<Rightarrow> string list" where
  "btreeStore_ListKeys t = tree_Ascend (\<lambda>i items. (items @ [Key i], True)) (tree t) []"

text \<open>\<open>Get\<close> returns the item, the \<open>exists\<close> flag and the error.\<close>

definition btreeStore_Get :: "'o iface \<Rightarrow> 'o btreeStore \<Rightarrow> 'o storeElement option \<times> bool \<times> error option" where
  "btreeStore_Get obj t =
     (case obj of
        StoreElem storeElem \<Rightarrow>
          (case tree_Get storeElem (tree t) of
             None \<Rightarrow> (None, False, None)
           | Some item \<Rightarrow> (Some item, False, None))
      | _ \<Rightarrow> (None, False, Some NotAStoreElement))"

definition getByKeyLocked :: "string \<Rightarrow> 'o btreeStore \<Rightarrow> 'o storeElement option \<times> bool \<times> error option" where
  "getByKeyLocked key t =
     (case tree_Ascend (\<lambda>i (item, ex). if key = Key i then ((Some i, True), False) else ((item, ex), True))
             (tree t) (None, False) of
        (item, ex) \<Rightarrow> (item, ex, None))"

definition btreeStore_GetByKey :: "string \<Rightarrow> 'o btreeStore \<Rightarrow> 'o storeElement option \<times> bool \<times> error option" where
  "btreeStore_GetByKey key t = getByKeyLocked key t"

fun btreeStore_Replace_loop :: "'o iface list \<Rightarrow> 'o btreeStore \<Rightarrow> error option \<times> 'o btreeStore" where
  "btreeStore_Replace_loop [] t = (None, t)"
| "btreeStore_Replace_loop (obj # objs) t =
     (case addOrUpdateLocked obj t of
        (Some err, t1) \<Rightarrow> (Some err, t1)
      | (None, t1) \<Rightarrow> btreeStore_Replace_loop objs t1)"

definition btreeStore_Replace :: "'o iface list \<Rightarrow> string \<Rightarrow> 'o btreeStore \<Rightarrow> error option \<times> 'o btreeStore" where
  "btreeStore_Replace objs rvs t = btreeStore_Replace_loop objs (t\<lparr>tree := []\<rparr>)"

text \<open>A clone carries the tree only: its indices, indexers and \<open>keyFunc\<close> are nil.\<close>

definition btreeStore_Clone :: "'o btreeStore \<Rightarrow> 'o btreeStore" where
  "btreeStore_Clone t = \<lparr>tree = tree t, indices = Map.empty, indexers = [], keyFunc = None\<rparr>"

text \<open>
  The iterator of \<open>LimitPrefixRead\<close>; its captured variables are \<open>result\<close> and
  \<open>elementsRetrieved\<close>.  The limit is an \<open>int64\<close>.
\<close>

definition LimitPrefixRead_iter ::
  "int \<Rightarrow> string \<Rightarrow> 'o storeElement \<Rightarrow> 'o storeElement list \<times> int
     \<Rightarrow> ('o storeElement list \<times> int) \<times> bool" where
  "LimitPrefixRead_iter limit key i s =
     (case s of (result, elementsRetrieved) \<Rightarrow>
        if elementsRetrieved = limit then (s, False)
        else if \<not> HasPrefix (Key i) key then (s, False)
        else ((result @ [i], elementsRetrieved + 1), True))"

text \<open>
  The mutex of the store is a \<open>sync.RWMutex\<close> of the Go standard library: the number of
  read locks held and whether the write lock is held.  \<open>Unlock\<close> of a mutex whose write
  lock is not held is a fatal error of the run time (\<open>sync: Unlock of unlocked
  RWMutex\<close>): it ends the process and cannot be recovered.  \<open>RLock\<close> returns only while
  the write lock is not held.  The other methods modelled release the lock they
  acquired, and the calls run one after the other, so a call finds the mutex free.
  \<open>LimitPrefixRead\<close> acquires the read lock and defers the release of the write lock, so
  its locking is written out: the deferred \<open>Unlock\<close> runs when the result has been
  computed.
\<close>

record RWMutex =
  readerCount :: nat
  writerHeld :: bool

definition RWMutex_free :: RWMutex where
  "RWMutex_free = \<lparr>readerCount = 0, writerHeld = False\<rparr>"

definition RWMutex_RLock :: "RWMutex \<Rightarrow> RWMutex" where
  "RWMutex_RLock m = m\<lparr>readerCount := readerCount m + 1\<rparr>"

definition RWMutex_Unlock :: "RWMutex \<Rightarrow> error + RWMutex" where
  "RWMutex_Unlock m =
     (if writerHeld m then Inr (m\<lparr>writerHeld := False\<rparr>) else Inl FatalUnlockOfUnlockedRWMutex)"

definition btreeStore_LimitPrefixRead :: "int \<Rightarrow> string \<Rightarrow> 'o btreeStore \<Rightarrow> error + 'o storeElement list" where
  "btreeStore_LimitPrefixRead limit key t =
     (let m = RWMutex_RLock RWMutex_free;
          result = fst (tree_AscendGreaterOrEqual key (LimitPrefixRead_iter limit key) (tree t) ([], 0))
      in case RWMutex_Unlock m of
           Inl fatal \<Rightarrow> Inl fatal
         | Inr m' \<Rightarrow> Inr result)"

section \<open>The continue token\<close>

text \<open>
  \<open>path.Clean\<close> of the Go standard library, which \<open>decodeContinue\<close> calls, written
  after its loop over the bytes of the path: \<open>out\<close> is the buffer written so far and
  \<open>dotdot\<close> the length below which a \<open>..\<close> element cannot backtrack.
\<close>

function Clean_backtrack :: "string \<Rightarrow> nat \<Rightarrow> nat \<Rightarrow> nat" where
  "Clean_backtrack out w dotdot =
     (if w > dotdot \<and> out ! w \<noteq> CHR ''/'' then Clean_backtrack out (w - 1) dotdot else w)"
  by pat_completeness auto
termination
  by (relation "measure (\<lambda>(out, w, dotdot). w)") auto

declare Clean_backtrack.simps [simp del]

function Clean_loop :: "bool \<Rightarrow> string \<Rightarrow> string \<Rightarrow> nat \<Rightarrow> string" where
  "Clean_loop rooted [] out dotdot = out"
| "Clean_loop rooted (c # cs) out dotdot =
     (if c = CHR ''/'' then Clean_loop rooted cs out dotdot
      else if c = CHR ''.'' \<and> (cs = [] \<or> hd cs = CHR ''/'') then Clean_loop rooted cs out dotdot
      else if c = CHR ''.'' \<and> hd cs = CHR ''.'' \<and> (tl cs = [] \<or> hd (tl cs) = CHR ''/'') then
        (if length out > dotdot
         then Clean_loop rooted (tl cs) (take (Clean_backtrack out (length out - 1) dotdot) out) dotdot
         else if \<not> rooted
         then Clean_loop rooted (tl cs) ((if length out > 0 then out @ ''/'' else out) @ ''..'')
                (length ((if length out > 0 then out @ ''/'' else out) @ ''..''))
         else Clean_loop rooted (tl cs) out dotdot)
      else Clean_loop rooted (dropWhile (\<lambda>x. x \<noteq> CHR ''/'') cs)
             ((if rooted \<and> length out \<noteq> 1 \<or> \<not> rooted \<and> length out \<noteq> 0 then out @ ''/'' else out)
                @ c # takeWhile (\<lambda>x. x \<noteq> CHR ''/'') cs)
             dotdot)"
  by pat_completeness auto
termination
  by (relation "measure (\<lambda>(rooted, p, out, dotdot). length p)")
     (simp_all (no_asm) add: less_Suc_eq_le length_dropWhile_le)

definition path_Clean :: "string \<Rightarrow> string" where
  "path_Clean p =
     (if p = [] then ''.''
      else (let rooted = (hd p = CHR ''/'');
                res = (if rooted then Clean_loop rooted (tl p) ''/'' 1 else Clean_loop rooted p [] 0)
            in if res = [] then ''.'' else res))"

record continueToken =
  APIVersion :: string
  ResourceVersion_t :: int
  StartKey :: string

text \<open>
  \<open>decodeContinue\<close> first decodes base64 and JSON with the standard library; that step
  is the parameter \<open>unmarshal\<close>, which gives the token or the cause of the failure.
\<close>

definition decodeContinue ::
  "(string \<Rightarrow> string + continueToken) \<Rightarrow> string \<Rightarrow> string \<Rightarrow> error + string \<times> int" where
  "decodeContinue unmarshal continueValue keyPrefix =
     (case unmarshal continueValue of
        Inl cause \<Rightarrow> Inl (ContinueNotValid cause)
      | Inr c \<Rightarrow>
          if APIVersion c = ''meta.k8s.io/v1'' then
            (if ResourceVersion_t c = 0 then Inl ContinueBadResourceVersion
             else if length (StartKey c) = 0 then Inl ContinueEmptyStartKey
             else (let key = (if \<not> HasPrefix (StartKey c) ''/'' then ''/'' @ StartKey c else StartKey c);
                       cleaned = path_Clean key
                   in if cleaned \<noteq> key then Inl (ContinueBadKey (StartKey c))
                      else Inr (keyPrefix @ drop 1 cleaned, ResourceVersion_t c)))
          else Inl (ContinueUnknownVersion (APIVersion c)))"

definition getRVFromContinue :: "(string \<Rightarrow> string + continueToken) \<Rightarrow> string \<Rightarrow> error + rv" where
  "getRVFromContinue unmarshal continueValue =
     (case unmarshal continueValue of
        Inl cause \<Rightarrow> Inl (ContinueNotValid cause)
      | Inr c \<Rightarrow>
          if APIVersion c \<noteq> ''meta.k8s.io/v1'' then Inl (ContinueUnknownVersion (APIVersion c))
          else Inr (word_of_int (ResourceVersion_t c)))"

section \<open>watchCache\<close>

text \<open>
  Instants and durations are integers of nanoseconds.  The start and end index and the
  capacity are Go ints that never go below zero; they are natural numbers.
\<close>

definition blockTimeout :: int where
  "blockTimeout = 3 * 1000000000"

definition resourceVersionTooHighRetrySeconds :: nat where
  "resourceVersionTooHighRetrySeconds = 1"

definition eventFreshDuration :: int where
  "eventFreshDuration = 75 * 1000000000"

definition defaultLowerBoundCapacity :: nat where
  "defaultLowerBoundCapacity = 100"

definition defaultUpperBoundCapacity :: nat where
  "defaultUpperBoundCapacity = 100 * 1024"

datatype EventType = Added | Modified | Deleted | Bookmark

record 'o watchCacheEvent =
  Type :: EventType
  Object_e :: "'o option"
  ObjLabels :: attrs
  ObjFields :: attrs
  PrevObject :: "'o option"
  PrevObjLabels :: attrs
  PrevObjFields :: attrs
  Key_e :: string
  ResourceVersion :: rv
  RecordTime :: int

text \<open>
  The state of a \<open>watchCache\<close>.  The injected functions are fields; the versioner is its
  two methods.  The two callbacks are effects outside the cache: whether each is set is
  a flag, and the calls made are recorded (\<open>handled\<close>, \<open>replaced\<close>).  The lock and the
  condition variable are not part of the state.
\<close>

record 'o watchCache =
  capacity :: nat
  upperBoundCapacity :: nat
  lowerBoundCapacity :: nat
  keyFunc_w :: "'o \<Rightarrow> error + string"
  getAttrsFunc :: "'o \<Rightarrow> error + attrs \<times> attrs"
  cache :: "'o watchCacheEvent option list"
  startIndex :: nat
  endIndex :: nat
  store :: "'o btreeStore"
  resourceVersion :: rv
  listResourceVersion :: rv
  onReplace :: bool
  replaced :: nat
  eventHandler :: bool
  handled :: "'o watchCacheEvent list"
  ObjectResourceVersion :: "'o \<Rightarrow> error + rv"
  ParseResourceVersion :: "string \<Rightarrow> error + rv"
  continueCache :: "rv \<rightharpoonup> 'o btreeStore"

text \<open>
  \<open>newWatchCache\<close>.  The source builds the store with a call of \<open>newBtreeStore\<close> that
  does not match its declaration, so the store is an argument here.
\<close>

definition newWatchCache ::
  "('o \<Rightarrow> error + string) \<Rightarrow> bool \<Rightarrow> ('o \<Rightarrow> error + attrs \<times> attrs) \<Rightarrow> ('o \<Rightarrow> error + rv)
     \<Rightarrow> (string \<Rightarrow> error + rv) \<Rightarrow> 'o btreeStore \<Rightarrow> 'o watchCache" where
  "newWatchCache kf eh gaf orv prv st =
     \<lparr>capacity = defaultLowerBoundCapacity,
      upperBoundCapacity = defaultUpperBoundCapacity,
      lowerBoundCapacity = defaultLowerBoundCapacity,
      keyFunc_w = kf,
      getAttrsFunc = gaf,
      cache = replicate defaultLowerBoundCapacity None,
      startIndex = 0,
      endIndex = 0,
      store = st,
      resourceVersion = 0,
      listResourceVersion = 0,
      onReplace = False,
      replaced = 0,
      eventHandler = eh,
      handled = [],
      ObjectResourceVersion = orv,
      ParseResourceVersion = prv,
      continueCache = Map.empty\<rparr>"

definition cleanup :: "rv \<Rightarrow> (rv \<rightharpoonup> 'o btreeStore) \<Rightarrow> (rv \<rightharpoonup> 'o btreeStore)" where
  "cleanup v c = (case c v of Some x \<Rightarrow> c(v := None) | None \<Rightarrow> c)"

definition isCacheFullLocked :: "'o watchCache \<Rightarrow> bool" where
  "isCacheFullLocked w = (endIndex w = startIndex w + capacity w)"

text \<open>
  \<open>w.cache[i % w.capacity]\<close> read through its pointer.  \<open>None\<close> is the run-time panic
  of a zero capacity, an index out of range or a nil slot.
\<close>

definition cacheAt :: "'o watchCache \<Rightarrow> nat \<Rightarrow> 'o watchCacheEvent option" where
  "cacheAt w i =
     (if capacity w = 0 then None
      else if i mod capacity w < length (cache w) then cache w ! (i mod capacity w)
      else None)"

text \<open>The copying loop of \<open>doCacheResizeLocked\<close>; \<open>None\<close> is a panic.\<close>

fun doCacheResizeLocked_loop ::
  "nat list \<Rightarrow> nat \<Rightarrow> 'o watchCache \<Rightarrow> 'o watchCacheEvent option list
     \<Rightarrow> 'o watchCacheEvent option list option" where
  "doCacheResizeLocked_loop [] cap w newCache = Some newCache"
| "doCacheResizeLocked_loop (i # is) cap w newCache =
     (if cap = 0 \<or> capacity w = 0 \<or> \<not> i mod capacity w < length (cache w)
         \<or> \<not> i mod cap < length newCache
      then None
      else doCacheResizeLocked_loop is cap w (newCache[i mod cap := cache w ! (i mod capacity w)]))"

definition doCacheResizeLocked :: "nat \<Rightarrow> 'o watchCache \<Rightarrow> 'o watchCache option" where
  "doCacheResizeLocked cap w =
     (let newCache = replicate cap None;
          w1 = (if cap < capacity w then w\<lparr>startIndex := endIndex w - cap\<rparr> else w)
      in case doCacheResizeLocked_loop [startIndex w1..<endIndex w1] cap w1 newCache of
           None \<Rightarrow> None
         | Some nc \<Rightarrow> Some (w1\<lparr>cache := nc, capacity := cap\<rparr>))"

definition resizeCacheLocked :: "int \<Rightarrow> 'o watchCache \<Rightarrow> 'o watchCache option" where
  "resizeCacheLocked eventTime w =
     (if isCacheFullLocked w then
        (case cacheAt w (startIndex w) of
           None \<Rightarrow> None
         | Some oldest \<Rightarrow>
             if eventTime - RecordTime oldest < eventFreshDuration then
               (let cap = min (capacity w * 2) (upperBoundCapacity w)
                in if cap > capacity w then doCacheResizeLocked cap w else Some w)
             else
               (case cacheAt w (endIndex w - capacity w div 4) of
                  None \<Rightarrow> None
                | Some e \<Rightarrow>
                    if eventTime - RecordTime e > eventFreshDuration then
                      (let cap = max (capacity w div 2) (lowerBoundCapacity w)
                       in if cap < capacity w then doCacheResizeLocked cap w else Some w)
                    else Some w))
      else Some w)"

definition updateCache :: "'o watchCacheEvent \<Rightarrow> 'o watchCache \<Rightarrow> 'o watchCache option" where
  "updateCache event w =
     (case resizeCacheLocked (RecordTime event) w of
        None \<Rightarrow> None
      | Some w1 \<Rightarrow>
          (case (if isCacheFullLocked w1 then
                   (case cacheAt w1 (startIndex w1) of
                      None \<Rightarrow> None
                    | Some oldest \<Rightarrow>
                        Some (w1\<lparr>continueCache := cleanup (ResourceVersion oldest) (continueCache w1),
                                 startIndex := startIndex w1 + 1\<rparr>))
                 else Some w1) of
             None \<Rightarrow> None
           | Some w2 \<Rightarrow>
               if capacity w2 = 0 \<or> \<not> endIndex w2 mod capacity w2 < length (cache w2) then None
               else Some (w2\<lparr>cache := (cache w2)[endIndex w2 mod capacity w2 := Some event],
                              endIndex := endIndex w2 + 1\<rparr>)))"

text \<open>
  \<open>processEvent\<close>: \<open>now\<close> is the reading of the clock.  On a panic the state returned is
  the state before the call.
\<close>

definition processEvent ::
  "EventType \<Rightarrow> 'o \<Rightarrow> rv \<Rightarrow> ('o iface \<Rightarrow> 'o btreeStore \<Rightarrow> error option \<times> 'o btreeStore) \<Rightarrow> int
     \<Rightarrow> 'o watchCache \<Rightarrow> error option \<times> 'o watchCache" where
  "processEvent ty obj rver updateFunc now w =
     (case keyFunc_w w obj of
        Inl err \<Rightarrow> (Some (CouldntComputeKey err), w)
      | Inr key \<Rightarrow>
          (case getAttrsFunc w obj of
             Inl err \<Rightarrow> (Some err, w)
           | Inr (ls, fs) \<Rightarrow>
               (let elem = \<lparr>Key = key, Object = obj, Labels = ls, Fields = fs\<rparr>;
                    wcEvent = \<lparr>Type = ty, Object_e = Some obj, ObjLabels = ls, ObjFields = fs,
                               PrevObject = None, PrevObjLabels = [], PrevObjFields = [],
                               Key_e = key, ResourceVersion = rver, RecordTime = now\<rparr>
                in case btreeStore_Get (StoreElem elem) (store w) of
                     (previous, ex, Some err) \<Rightarrow> (Some err, w)
                   | (previous, ex, None) \<Rightarrow>
                       (case (if ex then
                                (case previous of
                                   None \<Rightarrow> None
                                 | Some previousElem \<Rightarrow>
                                     Some (wcEvent\<lparr>PrevObject := Some (Object previousElem),
                                                    PrevObjLabels := Labels previousElem,
                                                    PrevObjFields := Fields previousElem\<rparr>))
                              else Some wcEvent) of
                          None \<Rightarrow> (Some RuntimePanic, w)
                        | Some wcEvent1 \<Rightarrow>
                            (case updateCache wcEvent1 w of
                               None \<Rightarrow> (Some RuntimePanic, w)
                             | Some w1 \<Rightarrow>
                                 (let w2 = w1\<lparr>resourceVersion := rver\<rparr>
                                  in case updateFunc (StoreElem elem) (store w2) of
                                       (Some err, st) \<Rightarrow> (Some err, w2\<lparr>store := st\<rparr>)
                                     | (None, st) \<Rightarrow>
                                         (None,
                                          if eventHandler w2
                                          then w2\<lparr>store := st, handled := handled w2 @ [wcEvent1]\<rparr>
                                          else w2\<lparr>store := st\<rparr>)))))))"

text \<open>An \<open>interface{}\<close> argument of the cache: \<open>None\<close> is a value that is no \<open>runtime.Object\<close>.\<close>

definition objectToVersionedRuntimeObject :: "'o option \<Rightarrow> 'o watchCache \<Rightarrow> error + 'o \<times> rv" where
  "objectToVersionedRuntimeObject obj w =
     (case obj of
        None \<Rightarrow> Inl NotARuntimeObject
      | Some object \<Rightarrow>
          (case ObjectResourceVersion w object of
             Inl err \<Rightarrow> Inl err
           | Inr rver \<Rightarrow> Inr (object, rver)))"

definition watchCache_Add :: "'o option \<Rightarrow> int \<Rightarrow> 'o watchCache \<Rightarrow> error option \<times> 'o watchCache" where
  "watchCache_Add obj now w =
     (case objectToVersionedRuntimeObject obj w of
        Inl err \<Rightarrow> (Some err, w)
      | Inr (object, rver) \<Rightarrow> processEvent Added object rver btreeStore_Add now w)"

definition watchCache_Update :: "'o option \<Rightarrow> int \<Rightarrow> 'o watchCache \<Rightarrow> error option \<times> 'o watchCache" where
  "watchCache_Update obj now w =
     (case objectToVersionedRuntimeObject obj w of
        Inl err \<Rightarrow> (Some err, w)
      | Inr (object, rver) \<Rightarrow> processEvent Modified object rver btreeStore_Update now w)"

definition watchCache_Delete :: "'o option \<Rightarrow> int \<Rightarrow> 'o watchCache \<Rightarrow> error option \<times> 'o watchCache" where
  "watchCache_Delete obj now w =
     (case objectToVersionedRuntimeObject obj w of
        Inl err \<Rightarrow> (Some err, w)
      | Inr (object, rver) \<Rightarrow> processEvent Deleted object rver btreeStore_Delete now w)"

definition UpdateResourceVersion :: "string \<Rightarrow> 'o watchCache \<Rightarrow> 'o watchCache" where
  "UpdateResourceVersion rvs w =
     (case ParseResourceVersion w rvs of
        Inl err \<Rightarrow> w
      | Inr v \<Rightarrow>
          (let w1 = w\<lparr>resourceVersion := v\<rparr>
           in if eventHandler w1
              then w1\<lparr>handled := handled w1 @
                     [\<lparr>Type = Bookmark, Object_e = None, ObjLabels = [], ObjFields = [],
                       PrevObject = None, PrevObjLabels = [], PrevObjFields = [],
                       Key_e = [], ResourceVersion = v, RecordTime = 0\<rparr>]\<rparr>
              else w1))"

definition watchCache_List :: "'o watchCache \<Rightarrow> 'o storeElement list" where
  "watchCache_List w = btreeStore_List (store w)"

definition watchCache_ListKeys :: "'o watchCache \<Rightarrow> string list" where
  "watchCache_ListKeys w = btreeStore_ListKeys (store w)"

definition watchCache_Get :: "'o option \<Rightarrow> 'o watchCache \<Rightarrow> 'o storeElement option \<times> bool \<times> error option" where
  "watchCache_Get obj w =
     (case obj of
        None \<Rightarrow> (None, False, Some NotARuntimeObject)
      | Some object \<Rightarrow>
          (case keyFunc_w w object of
             Inl err \<Rightarrow> (None, False, Some (CouldntComputeKey err))
           | Inr key \<Rightarrow>
               btreeStore_Get (StoreElem \<lparr>Key = key, Object = object, Labels = [], Fields = []\<rparr>) (store w)))"

definition watchCache_GetByKey :: "string \<Rightarrow> 'o watchCache \<Rightarrow> 'o storeElement option \<times> bool \<times> error option" where
  "watchCache_GetByKey key w = btreeStore_GetByKey key (store w)"

text \<open>The loop of \<open>Replace\<close> that turns each object into a store element.\<close>

fun Replace_loop :: "'o option list \<Rightarrow> 'o watchCache \<Rightarrow> error + 'o iface list" where
  "Replace_loop [] w = Inr []"
| "Replace_loop (obj # objs) w =
     (case obj of
        None \<Rightarrow> Inl NotARuntimeObject
      | Some object \<Rightarrow>
          (case keyFunc_w w object of
             Inl err \<Rightarrow> Inl (CouldntComputeKey err)
           | Inr key \<Rightarrow>
               (case getAttrsFunc w object of
                  Inl err \<Rightarrow> Inl err
                | Inr (objLabels, objFields) \<Rightarrow>
                    (case Replace_loop objs w of
                       Inl err \<Rightarrow> Inl err
                     | Inr toReplace \<Rightarrow>
                         Inr (StoreElem \<lparr>Key = key, Object = object, Labels = objLabels,
                                         Fields = objFields\<rparr> # toReplace)))))"

definition watchCache_Replace :: "'o option list \<Rightarrow> string \<Rightarrow> 'o watchCache \<Rightarrow> error option \<times> 'o watchCache" where
  "watchCache_Replace objs rvs w =
     (case ParseResourceVersion w rvs of
        Inl err \<Rightarrow> (Some err, w)
      | Inr version \<Rightarrow>
          (case Replace_loop objs w of
             Inl err \<Rightarrow> (Some err, w)
           | Inr toReplace \<Rightarrow>
               (let w1 = w\<lparr>startIndex := 0, endIndex := 0\<rparr>
                in case btreeStore_Replace toReplace rvs (store w1) of
                     (Some err, st) \<Rightarrow> (Some err, w1\<lparr>store := st\<rparr>)
                   | (None, st) \<Rightarrow>
                       (let w2 = w1\<lparr>store := st, listResourceVersion := version,
                                     resourceVersion := version\<rparr>
                        in (None, if onReplace w2 then w2\<lparr>replaced := replaced w2 + 1\<rparr> else w2)))))"

subsection \<open>The freshness gate\<close>

text \<open>
  \<open>waitUntilFreshAndBlock\<close> blocks on the condition variable while other threads change
  the cache.  What it sees is given as the list of snapshots taken each time the loop
  condition is evaluated: the state of the cache under the read lock and the value of
  \<open>clock.Since(startTime)\<close>.  The first snapshot is taken when the lock is first
  acquired, each later one when \<open>cond.Wait()\<close> returns.  \<open>Blocked\<close> is a call that is
  still waiting when the snapshots end.  The first component of the result says whether
  the goroutine that broadcasts after \<open>blockTimeout\<close> was started.
\<close>

datatype 'o gate = Blocked | Failed error "'o watchCache" | Acquired "'o watchCache"

fun waitUntilFreshAndBlock_loop :: "rv \<Rightarrow> ('o watchCache \<times> int) list \<Rightarrow> 'o gate" where
  "waitUntilFreshAndBlock_loop rver [] = Blocked"
| "waitUntilFreshAndBlock_loop rver ((w, since) # rest) =
     (if resourceVersion w < rver then
        (if since \<ge> blockTimeout
         then Failed (TooLargeResourceVersion rver (resourceVersion w) resourceVersionTooHighRetrySeconds) w
         else waitUntilFreshAndBlock_loop rver rest)
      else Acquired w)"

definition waitUntilFreshAndBlock :: "rv \<Rightarrow> ('o watchCache \<times> int) list \<Rightarrow> bool \<times> 'o gate" where
  "waitUntilFreshAndBlock rver snaps = (rver > 0, waitUntilFreshAndBlock_loop rver snaps)"

record ListOptions =
  Limit :: int
  Continue :: string

text \<open>
  \<open>WaitUntilFreshAndList\<close> returns the items, the resource version and the index name,
  or an error, together with the state of the cache; \<open>None\<close> is a call that has not
  returned.  With the fatal error of \<open>LimitPrefixRead\<close> the state is the one the cache
  has when the process ends.
\<close>

definition WaitUntilFreshAndList ::
  "(string \<Rightarrow> string + continueToken) \<Rightarrow> rv \<Rightarrow> string \<Rightarrow> ListOptions \<Rightarrow> ('o watchCache \<times> int) list
     \<Rightarrow> ((error + 'o storeElement list \<times> rv \<times> string) \<times> 'o watchCache) option" where
  "WaitUntilFreshAndList unmarshal rver key listOpts snaps =
     (case snd (waitUntilFreshAndBlock rver snaps) of
        Blocked \<Rightarrow> None
      | Failed err w \<Rightarrow> Some (Inl err, w)
      | Acquired w \<Rightarrow>
          (let hasContinuation = (length (Continue listOpts) > 0);
               hasLimit = (Limit listOpts > 0)
           in if \<not> hasLimit then Some (Inr (btreeStore_List (store w), resourceVersion w, []), w)
              else
                (case (if hasContinuation then
                         (case continueCache w rver of
                            None \<Rightarrow> Inl (ResourceExpired (TooOld rver))
                          | Some c \<Rightarrow> Inr (c, w))
                       else Inr (btreeStore_Clone (store w),
                                 w\<lparr>continueCache := (continueCache w)(rver \<mapsto> btreeStore_Clone (store w))\<rparr>)) of
                   Inl err \<Rightarrow> Some (Inl err, w)
                 | Inr (storeClone, w1) \<Rightarrow>
                     (let key1 = (if \<not> HasSuffix key ''/'' then key @ ''/'' else key)
                      in case (if hasContinuation then
                                 (case decodeContinue unmarshal (Continue listOpts) key1 of
                                    Inl err \<Rightarrow> Inl (BadRequest err)
                                  | Inr (continueKey, v) \<Rightarrow> Inr continueKey)
                               else Inr key1) of
                           Inl err \<Rightarrow> Some (Inl err, w1)
                         | Inr key2 \<Rightarrow>
                             (case btreeStore_LimitPrefixRead (Limit listOpts) key2 storeClone of
                                Inl fatal \<Rightarrow> Some (Inl fatal, w1)
                              | Inr items \<Rightarrow> Some (Inr (items, resourceVersion w1, []), w1))))))"

definition WaitUntilFreshAndGet ::
  "rv \<Rightarrow> string \<Rightarrow> ('o watchCache \<times> int) list
     \<Rightarrow> (error + 'o storeElement option \<times> bool \<times> rv \<times> error option) option" where
  "WaitUntilFreshAndGet rver key snaps =
     (case snd (waitUntilFreshAndBlock rver snaps) of
        Blocked \<Rightarrow> None
      | Failed err w \<Rightarrow> Some (Inl err)
      | Acquired w \<Rightarrow>
          (case btreeStore_GetByKey key (store w) of
             (val, ex, err) \<Rightarrow> Some (Inr (val, ex, resourceVersion w, err))))"

subsection \<open>Events since a resource version\<close>






subsection \<open>Sequences of operations\<close>

text \<open>
  The calls made on a cache, one after the other.  A list call that runs alone sees one
  snapshot, the current state, at the elapsed time given.
\<close>

datatype 'o operation =
    OpAdd "'o option" int
  | OpUpdate "'o option" int
  | OpDelete "'o option" int
  | OpReplace "'o option list" string
  | OpUpdateResourceVersion string
  | OpList rv string ListOptions int

definition step :: "(string \<Rightarrow> string + continueToken) \<Rightarrow> 'o operation \<Rightarrow> 'o watchCache \<Rightarrow> 'o watchCache" where
  "step unmarshal op w =
     (case op of
        OpAdd obj now \<Rightarrow> snd (watchCache_Add obj now w)
      | OpUpdate obj now \<Rightarrow> snd (watchCache_Update obj now w)
      | OpDelete obj now \<Rightarrow> snd (watchCache_Delete obj now w)
      | OpReplace objs rvs \<Rightarrow> snd (watchCache_Replace objs rvs w)
      | OpUpdateResourceVersion rvs \<Rightarrow> UpdateResourceVersion rvs w
      | OpList rver key listOpts since \<Rightarrow>
          (case WaitUntilFreshAndList unmarshal rver key listOpts [(w, since)] of
             None \<Rightarrow> w
           | Some (res, w1) \<Rightarrow> w1))"

definition run :: "(string \<Rightarrow> string + continueToken) \<Rightarrow> 'o operation list \<Rightarrow> 'o watchCache \<Rightarrow> 'o watchCache" where
  "run unmarshal ops w = fold (step unmarshal) ops w"

text \<open>
  A fatal error ends the process, so no call follows it.  \<open>fatal\<close> says whether a call
  ends in one, and \<open>exec\<close> runs the calls as \<open>run\<close> does and is \<open>None\<close> when one of them
  does.  A panic unwinds to the caller of the cache, which may recover it: \<open>exec\<close> goes
  on after a call that panicked, from the state the call left.
\<close>

definition fatal :: "(string \<Rightarrow> string + continueToken) \<Rightarrow> 'o operation \<Rightarrow> 'o watchCache \<Rightarrow> bool" where
  "fatal unmarshal op w =
     (case op of
        OpList rver key listOpts since \<Rightarrow>
          (case WaitUntilFreshAndList unmarshal rver key listOpts [(w, since)] of
             None \<Rightarrow> False
           | Some (res, w1) \<Rightarrow> res = Inl FatalUnlockOfUnlockedRWMutex)
      | _ \<Rightarrow> False)"


text \<open>The events held in the ring: those at the indices from \<open>startIndex\<close> up to \<open>endIndex\<close>.\<close>

definition ringEvents :: "'o watchCache \<Rightarrow> 'o watchCacheEvent option list" where
  "ringEvents w = map (cacheAt w) [startIndex w..<endIndex w]"

definition ring_inv :: "'o watchCache \<Rightarrow> bool" where
  "ring_inv w =
     (0 < lowerBoundCapacity w \<and> 0 < capacity w \<and> length (cache w) = capacity w
      \<and> startIndex w \<le> endIndex w \<and> endIndex w \<le> startIndex w + capacity w
      \<and> list_all (\<lambda>i. cacheAt w i \<noteq> None) [startIndex w..<endIndex w])"

text \<open>What a resize may do to a well-formed ring.\<close>

definition resized :: "'o watchCache \<Rightarrow> 'o watchCache \<Rightarrow> bool" where
  "resized w w' =
     (ring_inv w'
      \<and> (\<exists>s nc c. w' = w\<lparr>startIndex := s, cache := nc, capacity := c\<rparr>)
      \<and> startIndex w \<le> startIndex w'
      \<and> list_all (\<lambda>i. cacheAt w' i = cacheAt w i) [startIndex w'..<endIndex w]
      \<and> (w' = w
          \<or> isCacheFullLocked w \<and> capacity w < capacity w'
              \<and> capacity w' = min (capacity w * 2) (upperBoundCapacity w)
              \<and> startIndex w' = startIndex w
          \<or> isCacheFullLocked w \<and> capacity w' < capacity w
              \<and> capacity w' = max (capacity w div 2) (lowerBoundCapacity w)
              \<and> startIndex w' = endIndex w - capacity w'))"

text \<open>What \<open>updateCache\<close> does to a well-formed ring, given the ring after the resize.\<close>

definition appended :: "'o watchCacheEvent \<Rightarrow> 'o watchCache \<Rightarrow> 'o watchCache \<Rightarrow> bool" where
  "appended event w1 w' =
     (ring_inv w'
      \<and> (\<exists>cc s nc. w' = w1\<lparr>continueCache := cc, startIndex := s, cache := nc,
                             endIndex := endIndex w1 + 1\<rparr>)
      \<and> cacheAt w' (endIndex w1) = Some event
      \<and> list_all (\<lambda>i. cacheAt w' i = cacheAt w1 i) [startIndex w'..<endIndex w1]
      \<and> (if isCacheFullLocked w1
          then startIndex w' = startIndex w1 + 1
               \<and> (\<exists>oldest. cacheAt w1 (startIndex w1) = Some oldest
                     \<and> continueCache w' = cleanup (ResourceVersion oldest) (continueCache w1))
          else startIndex w' = startIndex w1 \<and> continueCache w' = continueCache w1))"

text \<open>
  Concrete inputs: the store that \<open>newBtreeStore\<close> builds, new caches on it and an
  unmarshalling function.
\<close>

definition ex_store :: "nat btreeStore" where
  "ex_store = newBtreeStore storeElementKey [] 2"

definition ex_cache :: "nat watchCache" where
  "ex_cache = newWatchCache (\<lambda>n. Inr ''/k'') True (\<lambda>n. Inr ([], [])) (\<lambda>n. Inr (of_nat n))
                 (\<lambda>s. Inr 10) ex_store"

text \<open>
  A cache as \<open>newWatchCache\<close> builds it, on the store that \<open>newBtreeStore\<close> builds; its
  versioner reads the resource version 15 from the string \<open>15\<close>.
\<close>

definition src_cache :: "nat watchCache" where
  "src_cache = newWatchCache (\<lambda>n. Inr ''/k'') True (\<lambda>n. Inr ([], [])) (\<lambda>n. Inr (of_nat n))
                 (\<lambda>s. if s = ''15'' then Inr 15 else Inr 10) (newBtreeStore storeElementKey [] 2)"

definition ex_unmarshal :: "string \<Rightarrow> string + continueToken" where
  "ex_unmarshal s = Inr \<lparr>APIVersion = ''meta.k8s.io/v1'', ResourceVersion_t = 15, StartKey = s\<rparr>"

definition ex_event :: "nat \<Rightarrow> int \<Rightarrow> nat watchCacheEvent" where
  "ex_event n t = \<lparr>Type = Added, Object_e = Some n, ObjLabels = [], ObjFields = [],
                   PrevObject = None, PrevObjLabels = [], PrevObjFields = [],
                   Key_e = ''/k'', ResourceVersion = of_nat n, RecordTime = t\<rparr>"

text \<open>
  The ring filled to its first capacity: the events of resource versions 100 to 199,
  all recorded at time 0, and a clone kept in the continue cache under 100.
\<close>

definition full_ring :: "nat watchCache" where
  "full_ring = ex_cache\<lparr>cache := map (\<lambda>n. Some (ex_event n 0)) [100..<200], endIndex := 100,
                         resourceVersion := 199,
                         continueCache := [100 \<mapsto> btreeStore_Clone ex_store]\<rparr>"

text \<open>
  The capacity is the lower bound times a power of two that stays within the upper
  bound, with the bounds \<open>newWatchCache\<close> sets.
\<close>

definition cap_inv :: "'o watchCache \<Rightarrow> bool" where
  "cap_inv w =
     (lowerBoundCapacity w = defaultLowerBoundCapacity
      \<and> upperBoundCapacity w = defaultUpperBoundCapacity
      \<and> (\<exists>k. k \<le> 10 \<and> capacity w = defaultLowerBoundCapacity * 2 ^ k))"

text \<open>One call changes the capacity by a resize at most: it doubles or halves, clamped.\<close>

definition cap_step :: "'o watchCache \<Rightarrow> 'o watchCache \<Rightarrow> bool" where
  "cap_step w w' =
     (lowerBoundCapacity w' = lowerBoundCapacity w
      \<and> upperBoundCapacity w' = upperBoundCapacity w
      \<and> (capacity w' = capacity w
          \<or> capacity w' = min (capacity w * 2) (upperBoundCapacity w) \<and> capacity w < capacity w'
          \<or> capacity w' = max (capacity w div 2) (lowerBoundCapacity w) \<and> capacity w' < capacity w))"




section \<open>Properties of the store\<close>

lemma Less_irrefl [simp]: "\<not> Less x x"
  by (simp add: Less_def)

lemma tree_Get_ReplaceOrInsert: "tree_Get x (snd (tree_ReplaceOrInsert x t)) = Some x"
  by (induction t) (auto split: prod.splits)

lemma updateIndicesLocked_tree: "tree (snd (updateIndicesLocked a b k t)) = tree t"
  by (simp add: updateIndicesLocked_def split: prod.splits)

lemma addOrUpdateLocked_tree:
  "tree (snd (addOrUpdateLocked (StoreElem r) t)) = snd (tree_ReplaceOrInsert r (tree t))"
  by (simp add: addOrUpdateLocked_def updateIndicesLocked_tree Let_def split: prod.splits option.splits sum.splits)

text \<open>
  Claim C1 asks that after \<open>Add(r)\<close> a \<open>Get\<close> on the key of \<open>r\<close> returns \<open>r\<close> and reports it
  as present.  On the code, \<open>Get\<close> after \<open>Add(r)\<close> does return \<open>r\<close> and no error, for every
  store and every record, but its presence flag is false: \<open>Get\<close> returns the constant
  \<open>false\<close> on the path where the item was found.
\<close>

theorem C1_Get_after_Add_flag_is_false: "btreeStore_Get (StoreElem r) (snd (btreeStore_Add (StoreElem r) t)) = (Some r, False, None)"
  by (simp add: btreeStore_Get_def btreeStore_Add_def addOrUpdateLocked_tree tree_Get_ReplaceOrInsert)

lemma HasPrefix_Nil [simp]: "HasPrefix s []"
  by (simp add: HasPrefix_def)

lemma HasPrefix_Cons: "HasPrefix s (c # p) \<longleftrightarrow> (\<exists>s'. s = c # s' \<and> HasPrefix s' p)"
  by (cases s) (auto simp: HasPrefix_def)

lemma HasPrefix_not_less: "HasPrefix s p \<Longrightarrow> \<not> s < p"
  by (induction p arbitrary: s) (auto simp: HasPrefix_Cons)

lemma HasPrefix_above:
  "\<not> a < p \<Longrightarrow> \<not> HasPrefix a p \<Longrightarrow> a < b \<Longrightarrow> \<not> HasPrefix b p"
proof (induction p arbitrary: a b)
  case Nil
  then show ?case by simp
next
  case (Cons c p)
  then show ?case
    by (cases a; cases b) (auto simp: HasPrefix_Cons)
qed

lemma LimitPrefixRead_Ascend:
  "fst (tree_Ascend (LimitPrefixRead_iter limit key) ys (acc, n)) =
     acc @ (if limit < n then takeWhile (\<lambda>e. HasPrefix (Key e) key) ys
            else take (nat (limit - n)) (takeWhile (\<lambda>e. HasPrefix (Key e) key) ys))"
proof (induction ys arbitrary: acc n)
  case Nil
  then show ?case by simp
next
  case (Cons y ys)
  show ?case
  proof (cases "n = limit")
    case True
    then show ?thesis by (simp add: LimitPrefixRead_iter_def)
  next
    case False
    show ?thesis
    proof (cases "limit < n")
      case True
      then show ?thesis
        using False Cons.IH [of "acc @ [y]" "n + 1"]
        by (simp add: LimitPrefixRead_iter_def)
    next
      case nl: False
      with False have "nat (limit - n) = Suc (nat (limit - (n + 1)))" by arith
      with False nl show ?thesis
        using Cons.IH [of "acc @ [y]" "n + 1"]
        by (simp add: LimitPrefixRead_iter_def)
    qed
  qed
qed

lemma takeWhile_dropWhile_filter:
  "sorted_wrt (<) (map Key xs) \<Longrightarrow>
     takeWhile (\<lambda>e. HasPrefix (Key e) key) (dropWhile (\<lambda>x. Key x < key) xs)
       = filter (\<lambda>e. HasPrefix (Key e) key) xs"
proof (induction xs)
  case Nil
  then show ?case by simp
next
  case (Cons x xs)
  show ?case
  proof (cases "Key x < key")
    case True
    then have "\<not> HasPrefix (Key x) key" using HasPrefix_not_less by blast
    with True Cons show ?thesis by simp
  next
    case False
    show ?thesis
    proof (cases "HasPrefix (Key x) key")
      case True
      have "\<forall>e\<in>set xs. \<not> Key e < key"
        using Cons.prems False by (auto dest: less_trans)
      then have "dropWhile (\<lambda>x. Key x < key) xs = xs"
        by (cases xs) auto
      with Cons True False show ?thesis by simp
    next
      case nP: False
      have "\<forall>e\<in>set xs. \<not> HasPrefix (Key e) key"
        using Cons.prems False nP HasPrefix_above by fastforce
      then have "filter (\<lambda>e. HasPrefix (Key e) key) xs = []"
        by (simp add: filter_empty_conv)
      with False nP show ?thesis by simp
    qed
  qed
qed


lemma tree_ReplaceOrInsert_keys:
  "Key ` set (snd (tree_ReplaceOrInsert x t)) = insert (Key x) (Key ` set t)"
  by (induction t) (auto simp: Less_def split_beta)

lemma tree_inv_ReplaceOrInsert: "tree_inv t \<Longrightarrow> tree_inv (snd (tree_ReplaceOrInsert x t))"
proof (induction t)
  case Nil
  then show ?case by (simp add: tree_inv_def)
next
  case (Cons y ys)
  have keys: "Key ` set (snd (tree_ReplaceOrInsert x ys)) = insert (Key x) (Key ` set ys)"
    by (rule tree_ReplaceOrInsert_keys)
  show ?case
  proof (cases "Less x y")
    case True
    with Cons.prems show ?thesis
      by (auto simp: tree_inv_def Less_def dest: less_trans)
  next
    case nl: False
    show ?thesis
    proof (cases "Less y x")
      case True
      from Cons have ih: "sorted_wrt (<) (map Key (snd (tree_ReplaceOrInsert x ys)))"
        by (simp add: tree_inv_def)
      from Cons.prems have "\<forall>k\<in>Key ` set ys. Key y < k" by (simp add: tree_inv_def)
      with True have "\<forall>k\<in>Key ` set (snd (tree_ReplaceOrInsert x ys)). Key y < k"
        unfolding keys by (simp add: Less_def)
      with nl True ih show ?thesis
        by (simp add: tree_inv_def split_beta)
    next
      case False
      with nl have "Key x = Key y" by (auto simp: Less_def)
      with nl False Cons.prems show ?thesis
        by (simp add: tree_inv_def)
    qed
  qed
qed

lemma tree_Delete_keys: "Key ` set (snd (tree_Delete x t)) \<subseteq> Key ` set t"
  by (induction t) (auto simp: split_beta)

lemma tree_inv_Delete: "tree_inv t \<Longrightarrow> tree_inv (snd (tree_Delete x t))"
proof (induction t)
  case Nil
  then show ?case by (simp add: tree_inv_def)
next
  case (Cons y ys)
  have sub: "Key ` set (snd (tree_Delete x ys)) \<subseteq> Key ` set ys"
    by (rule tree_Delete_keys)
  from Cons.prems have "\<forall>k\<in>Key ` set ys. Key y < k" by (simp add: tree_inv_def)
  with sub have "\<forall>k\<in>Key ` set (snd (tree_Delete x ys)). Key y < k" by blast
  with Cons show ?case
    by (simp add: tree_inv_def split_beta)
qed

lemma tree_Get_above: "\<forall>k\<in>Key ` set t. Key x < k \<Longrightarrow> tree_Get x t = None"
  by (cases t) (auto simp: Less_def)

lemma tree_Get_Delete: "tree_inv t \<Longrightarrow> tree_Get x (snd (tree_Delete x t)) = None"
proof (induction t)
  case Nil
  then show ?case by simp
next
  case (Cons y ys)
  show ?case
  proof (cases "Less x y \<or> Less y x")
    case True
    with Cons show ?thesis by (auto simp: tree_inv_def split_beta)
  next
    case False
    then have "Key x = Key y" by (auto simp: Less_def)
    with Cons.prems have "\<forall>k\<in>Key ` set ys. Key x < k" by (simp add: tree_inv_def)
    then have "tree_Get x ys = None" by (rule tree_Get_above)
    with False show ?thesis by simp
  qed
qed

lemma tree_inv_addOrUpdateLocked:
  "tree_inv (tree t) \<Longrightarrow> tree_inv (tree (snd (addOrUpdateLocked obj t)))"
proof (cases obj)
  case (StoreElem r)
  assume "tree_inv (tree t)"
  then show ?thesis
    unfolding StoreElem addOrUpdateLocked_tree by (rule tree_inv_ReplaceOrInsert)
qed (simp_all add: addOrUpdateLocked_def)

lemma btreeStore_Delete_tree:
  "tree (snd (btreeStore_Delete (StoreElem r) t)) = tree t
     \<or> tree (snd (btreeStore_Delete (StoreElem r) t)) = snd (tree_Delete r (tree t))"
  by (auto simp: btreeStore_Delete_def updateIndicesLocked_def
           split: prod.splits option.splits sum.splits)

lemma tree_inv_btreeStore_Delete:
  "tree_inv (tree t) \<Longrightarrow> tree_inv (tree (snd (btreeStore_Delete obj t)))"
proof (cases obj)
  case (StoreElem r)
  assume "tree_inv (tree t)"
  then show ?thesis
    unfolding StoreElem using btreeStore_Delete_tree [of r t] tree_inv_Delete [of "tree t" r]
    by auto
qed (simp_all add: btreeStore_Delete_def)

lemma tree_inv_Replace_loop:
  "tree_inv (tree t) \<Longrightarrow> tree_inv (tree (snd (btreeStore_Replace_loop objs t)))"
proof (induction objs arbitrary: t)
  case Nil
  then show ?case by simp
next
  case (Cons obj objs)
  from Cons.prems have "tree_inv (tree (snd (addOrUpdateLocked obj t)))"
    by (rule tree_inv_addOrUpdateLocked)
  with Cons.IH [of "snd (addOrUpdateLocked obj t)"] show ?case
    by (auto split: prod.splits option.splits)
qed

lemma tree_inv_btreeStore_Replace: "tree_inv (tree (snd (btreeStore_Replace objs rvs t)))"
  unfolding btreeStore_Replace_def by (rule tree_inv_Replace_loop) (simp add: tree_inv_def)

text \<open>
  What the scan of \<open>LimitPrefixRead\<close> collects, on a tree in order: the records whose key
  starts with the prefix, in ascending key order, the first \<open>limit\<close> of them when the
  limit is above zero, none when it is zero and all when it is below zero.
\<close>

lemma LimitPrefixRead_scan:
  assumes "tree_inv (tree t)"
  shows "fst (tree_AscendGreaterOrEqual key (LimitPrefixRead_iter limit key) (tree t) ([], 0)) =
           (if limit < 0 then filter (\<lambda>e. HasPrefix (Key e) key) (tree t)
            else take (nat limit) (filter (\<lambda>e. HasPrefix (Key e) key) (tree t)))"
proof -
  from assms have srt: "sorted_wrt (<) (map Key (tree t))" by (simp add: tree_inv_def)
  show ?thesis
    by (simp add: tree_AscendGreaterOrEqual_def LimitPrefixRead_Ascend
          takeWhile_dropWhile_filter [OF srt])
qed

text \<open>
  Claim C3 on the code.  \<open>LimitPrefixRead\<close> acquires the read lock of the store and
  releases its write lock on return, which no one holds: for every store, prefix and
  limit the call ends in the fatal error of the run time and returns no list.
\<close>

theorem C3_LimitPrefixRead_fatal:
  "btreeStore_LimitPrefixRead limit key t = Inl FatalUnlockOfUnlockedRWMutex"
  by (simp add: btreeStore_LimitPrefixRead_def RWMutex_RLock_def RWMutex_free_def
        RWMutex_Unlock_def Let_def)

text \<open>
  The same holds from every state of the mutex in which \<open>RLock\<close> returns, whatever the
  number of readers.
\<close>

lemma RWMutex_Unlock_after_RLock:
  "\<not> writerHeld m \<Longrightarrow> RWMutex_Unlock (RWMutex_RLock m) = Inl FatalUnlockOfUnlockedRWMutex"
  by (simp add: RWMutex_RLock_def RWMutex_Unlock_def)

lemma LimitPrefixRead_never_returns:
  "btreeStore_LimitPrefixRead limit key t = Inl FatalUnlockOfUnlockedRWMutex"
  by (simp add: btreeStore_LimitPrefixRead_def RWMutex_RLock_def RWMutex_free_def
        RWMutex_Unlock_def Let_def)

section \<open>Properties of the ring\<close>

lemma mod_window_neq:
  fixes i e cap :: nat
  assumes "i < e" "e < i + cap"
  shows "i mod cap \<noteq> e mod cap"
proof
  assume eq: "i mod cap = e mod cap"
  from assms have "e - i < cap" "0 < e - i" by auto
  moreover from eq assms(1) have "(e - i) mod cap = 0"
    by (metis less_imp_le_nat mod_eq_dvd_iff_nat dvd_imp_mod_0)
  ultimately show False by simp
qed

lemma loop_is_fold:
  assumes "0 < cap" "0 < capacity w" "length (cache w) = capacity w" "length nc = cap"
  shows "doCacheResizeLocked_loop is cap w nc =
           Some (fold (\<lambda>i nc. nc[i mod cap := cache w ! (i mod capacity w)]) is nc)"
  using assms by (induction "is" arbitrary: nc) simp_all

lemma length_fold_upd:
  "length (fold (\<lambda>i nc. nc[g i := h i]) is nc) = length nc"
  by (induction "is" arbitrary: nc) simp_all

lemma fold_window_nth:
  fixes s e cap :: nat
  assumes "0 < cap" "length nc = cap" "e \<le> s + cap" "s \<le> i" "i < e"
  shows "fold (\<lambda>i nc. nc[i mod cap := h i]) [s..<e] nc ! (i mod cap) = h i"
  using assms
proof (induction e)
  case 0
  then show ?case by simp
next
  case (Suc e)
  show ?case
  proof (cases "i = e")
    case True
    with Suc.prems show ?thesis
      by (simp add: length_fold_upd)
  next
    case False
    with Suc.prems have lt: "i < e" by simp
    with Suc.prems have "i mod cap \<noteq> e mod cap"
      by (intro mod_window_neq) auto
    with Suc lt show ?thesis
      by simp
  qed
qed

lemma ring_inv_slot:
  "ring_inv w \<Longrightarrow> startIndex w \<le> i \<Longrightarrow> i < endIndex w \<Longrightarrow> \<exists>e. cacheAt w i = Some e"
  by (auto simp: ring_inv_def list_all_iff)

lemma cacheAt_nth:
  "0 < capacity w \<Longrightarrow> length (cache w) = capacity w \<Longrightarrow> cacheAt w i = cache w ! (i mod capacity w)"
  by (simp add: cacheAt_def)

lemma doCacheResizeLocked_ok:
  assumes inv: "ring_inv w" and cap: "0 < cap"
    and shr: "cap < capacity w \<Longrightarrow> startIndex w + cap \<le> endIndex w"
  shows "\<exists>nc. doCacheResizeLocked cap w =
             Some (w\<lparr>startIndex := (if cap < capacity w then endIndex w - cap else startIndex w),
                     cache := nc, capacity := cap\<rparr>)
           \<and> length nc = cap
           \<and> (\<forall>i. (if cap < capacity w then endIndex w - cap else startIndex w) \<le> i \<and> i < endIndex w
                 \<longrightarrow> nc ! (i mod cap) = cache w ! (i mod capacity w))"
proof -
  let ?s = "if cap < capacity w then endIndex w - cap else startIndex w"
  let ?w1 = "if cap < capacity w then w\<lparr>startIndex := endIndex w - cap\<rparr> else w"
  let ?nc = "fold (\<lambda>i nc. nc[i mod cap := cache w ! (i mod capacity w)]) [?s..<endIndex w]
               (replicate cap None)"
  from inv have c0: "0 < capacity w" and len: "length (cache w) = capacity w"
    and se: "startIndex w \<le> endIndex w" and ec: "endIndex w \<le> startIndex w + capacity w"
    by (simp_all add: ring_inv_def)
  have w1: "capacity ?w1 = capacity w" "cache ?w1 = cache w" "startIndex ?w1 = ?s"
    "endIndex ?w1 = endIndex w"
    by simp_all
  have loop: "doCacheResizeLocked_loop [?s..<endIndex w] cap ?w1 (replicate cap None) = Some ?nc"
    using loop_is_fold [of cap ?w1 "replicate cap None" "[?s..<endIndex w]"] cap c0 len
    by (simp only: w1) simp
  have win: "endIndex w \<le> ?s + cap"
    using ec shr by auto
  have nth: "\<forall>i. ?s \<le> i \<and> i < endIndex w \<longrightarrow> ?nc ! (i mod cap) = cache w ! (i mod capacity w)"
    using fold_window_nth [of cap "replicate cap None" "endIndex w" ?s _ "\<lambda>i. cache w ! (i mod capacity w)"]
      cap win by simp
  have res: "doCacheResizeLocked cap w = Some (w\<lparr>startIndex := ?s, cache := ?nc, capacity := cap\<rparr>)"
  proof (cases "cap < capacity w")
    case True
    with loop show ?thesis by (simp add: doCacheResizeLocked_def Let_def)
  next
    case False
    with loop show ?thesis by (simp add: doCacheResizeLocked_def Let_def)
  qed
  have "length ?nc = cap" by (simp add: length_fold_upd)
  with res nth show ?thesis by blast
qed

lemma ring_inv_resized:
  assumes inv: "ring_inv w" and cap: "0 < cap" and len: "length nc = cap"
    and s: "startIndex w \<le> s" "s \<le> endIndex w" "endIndex w \<le> s + cap"
    and nth: "\<forall>i. s \<le> i \<and> i < endIndex w \<longrightarrow> nc ! (i mod cap) = cache w ! (i mod capacity w)"
  shows "ring_inv (w\<lparr>startIndex := s, cache := nc, capacity := cap\<rparr>)
         \<and> (\<forall>i. s \<le> i \<and> i < endIndex w
               \<longrightarrow> cacheAt (w\<lparr>startIndex := s, cache := nc, capacity := cap\<rparr>) i = cacheAt w i)"
proof -
  let ?w = "w\<lparr>startIndex := s, cache := nc, capacity := cap\<rparr>"
  from inv have c0: "0 < capacity w" and l0: "length (cache w) = capacity w"
    by (simp_all add: ring_inv_def)
  have eq: "\<forall>i. s \<le> i \<and> i < endIndex w \<longrightarrow> cacheAt ?w i = cacheAt w i"
    using nth cap len c0 l0 by (simp add: cacheAt_def)
  have "\<forall>i. s \<le> i \<and> i < endIndex w \<longrightarrow> cacheAt ?w i \<noteq> None"
  proof (intro allI impI)
    fix i assume i: "s \<le> i \<and> i < endIndex w"
    with s(1) have "\<exists>e. cacheAt w i = Some e"
      using ring_inv_slot [OF inv, of i] by simp
    with eq i show "cacheAt ?w i \<noteq> None" by auto
  qed
  with inv cap len s have "ring_inv ?w"
    by (simp add: ring_inv_def list_all_iff)
  with eq show ?thesis by blast
qed

lemma doCacheResizeLocked_inv:
  assumes inv: "ring_inv w" and cap: "0 < cap"
    and shr: "cap < capacity w \<Longrightarrow> startIndex w + cap \<le> endIndex w"
  shows "\<exists>nc. doCacheResizeLocked cap w =
             Some (w\<lparr>startIndex := (if cap < capacity w then endIndex w - cap else startIndex w),
                     cache := nc, capacity := cap\<rparr>)
           \<and> ring_inv (w\<lparr>startIndex := (if cap < capacity w then endIndex w - cap else startIndex w),
                     cache := nc, capacity := cap\<rparr>)
           \<and> (\<forall>i. (if cap < capacity w then endIndex w - cap else startIndex w) \<le> i \<and> i < endIndex w
                 \<longrightarrow> cacheAt (w\<lparr>startIndex := (if cap < capacity w then endIndex w - cap else startIndex w),
                     cache := nc, capacity := cap\<rparr>) i = cacheAt w i)"
proof -
  let ?s = "if cap < capacity w then endIndex w - cap else startIndex w"
  from doCacheResizeLocked_ok [OF inv cap shr] obtain nc where
    res: "doCacheResizeLocked cap w = Some (w\<lparr>startIndex := ?s, cache := nc, capacity := cap\<rparr>)"
    and len: "length nc = cap"
    and nth: "\<forall>i. ?s \<le> i \<and> i < endIndex w \<longrightarrow> nc ! (i mod cap) = cache w ! (i mod capacity w)"
    by blast
  from inv have se: "startIndex w \<le> endIndex w" and ec: "endIndex w \<le> startIndex w + capacity w"
    by (simp_all add: ring_inv_def)
  have s1: "startIndex w \<le> ?s" using shr by auto
  have s2: "?s \<le> endIndex w" using se by auto
  have s3: "endIndex w \<le> ?s + cap" using ec shr by auto
  from ring_inv_resized [OF inv cap len s1 s2 s3 nth] res show ?thesis by blast
qed

lemma cacheAt_full_end:
  "ring_inv w \<Longrightarrow> isCacheFullLocked w \<Longrightarrow> cacheAt w (endIndex w) = cacheAt w (startIndex w)"
  by (simp add: ring_inv_def isCacheFullLocked_def cacheAt_def)

lemma ring_inv_full_oldest:
  assumes "ring_inv w" "isCacheFullLocked w"
  shows "\<exists>e. cacheAt w (startIndex w) = Some e"
proof -
  from assms have "startIndex w < endIndex w"
    by (simp add: ring_inv_def isCacheFullLocked_def)
  with assms(1) show ?thesis
    using ring_inv_slot [of w "startIndex w"] by simp
qed

lemma ring_inv_full_quarter:
  assumes "ring_inv w" "isCacheFullLocked w"
  shows "\<exists>e. cacheAt w (endIndex w - capacity w div 4) = Some e"
proof (cases "capacity w div 4 = 0")
  case True
  with assms show ?thesis
    using cacheAt_full_end [of w] ring_inv_full_oldest [of w] by simp
next
  case False
  with assms have "startIndex w \<le> endIndex w - capacity w div 4"
    "endIndex w - capacity w div 4 < endIndex w"
    by (auto simp: ring_inv_def isCacheFullLocked_def)
  with assms(1) show ?thesis
    using ring_inv_slot [of w "endIndex w - capacity w div 4"] by simp
qed

lemma ring_frame_refl: "\<exists>s nc c. w = w\<lparr>startIndex := s, cache := nc, capacity := c\<rparr>"
proof -
  have "w = w\<lparr>startIndex := startIndex w, cache := cache w, capacity := capacity w\<rparr>" by simp
  then show ?thesis by blast
qed

lemma resized_refl: "ring_inv w \<Longrightarrow> resized w w"
  using ring_frame_refl [of w] by (simp add: resized_def list_all_iff)

lemma doCacheResizeLocked_resized_grow:
  assumes inv: "ring_inv w" and full: "isCacheFullLocked w"
    and cap: "cap = min (capacity w * 2) (upperBoundCapacity w)" "capacity w < cap"
  shows "\<exists>w'. doCacheResizeLocked cap w = Some w' \<and> resized w w'"
proof -
  let ?s = "if cap < capacity w then endIndex w - cap else startIndex w"
  from cap(2) have c0: "0 < cap" by linarith
  from cap(2) have nlt: "\<not> cap < capacity w" by linarith
  from doCacheResizeLocked_inv [OF inv c0] nlt obtain nc where
    res: "doCacheResizeLocked cap w = Some (w\<lparr>startIndex := ?s, cache := nc, capacity := cap\<rparr>)"
    and ri: "ring_inv (w\<lparr>startIndex := ?s, cache := nc, capacity := cap\<rparr>)"
    and at: "\<forall>i. ?s \<le> i \<and> i < endIndex w
               \<longrightarrow> cacheAt (w\<lparr>startIndex := ?s, cache := nc, capacity := cap\<rparr>) i = cacheAt w i"
    by blast
  let ?w' = "w\<lparr>startIndex := ?s, cache := nc, capacity := cap\<rparr>"
  have fr: "\<exists>s nc c. ?w' = w\<lparr>startIndex := s, cache := nc, capacity := c\<rparr>" by blast
  have "resized w ?w'"
    unfolding resized_def using ri at nlt full cap fr
    by (auto simp: list_all_iff)
  with res show ?thesis by blast
qed

lemma doCacheResizeLocked_resized_shrink:
  assumes inv: "ring_inv w" and full: "isCacheFullLocked w"
    and cap: "cap = max (capacity w div 2) (lowerBoundCapacity w)" "cap < capacity w"
  shows "\<exists>w'. doCacheResizeLocked cap w = Some w' \<and> resized w w'"
proof -
  let ?s = "if cap < capacity w then endIndex w - cap else startIndex w"
  from inv cap have c0: "0 < cap" by (simp add: ring_inv_def max_def split: if_splits)
  from full cap have shr: "cap < capacity w \<Longrightarrow> startIndex w + cap \<le> endIndex w"
    by (simp add: isCacheFullLocked_def)
  from doCacheResizeLocked_inv [OF inv c0 shr] obtain nc where
    res: "doCacheResizeLocked cap w = Some (w\<lparr>startIndex := ?s, cache := nc, capacity := cap\<rparr>)"
    and ri: "ring_inv (w\<lparr>startIndex := ?s, cache := nc, capacity := cap\<rparr>)"
    and at: "\<forall>i. ?s \<le> i \<and> i < endIndex w
               \<longrightarrow> cacheAt (w\<lparr>startIndex := ?s, cache := nc, capacity := cap\<rparr>) i = cacheAt w i"
    by blast
  let ?w' = "w\<lparr>startIndex := ?s, cache := nc, capacity := cap\<rparr>"
  from full cap(2) have "startIndex w \<le> endIndex w - cap"
    by (simp add: isCacheFullLocked_def)
  moreover have fr: "\<exists>s nc c. ?w' = w\<lparr>startIndex := s, cache := nc, capacity := c\<rparr>" by blast
  ultimately have "resized w ?w'"
    unfolding resized_def using ri at full cap
    by (auto simp: list_all_iff)
  with res show ?thesis by blast
qed

lemma resizeCacheLocked_resized:
  assumes inv: "ring_inv w"
  shows "\<exists>w'. resizeCacheLocked t w = Some w' \<and> resized w w'"
proof (cases "isCacheFullLocked w")
  case False
  then show ?thesis
    using resized_refl [OF inv] by (simp add: resizeCacheLocked_def)
next
  case full: True
  define g where "g = min (capacity w * 2) (upperBoundCapacity w)"
  define h where "h = max (capacity w div 2) (lowerBoundCapacity w)"
  from ring_inv_full_oldest [OF inv full] obtain old where old: "cacheAt w (startIndex w) = Some old"
    by blast
  from ring_inv_full_quarter [OF inv full] obtain q where
    q: "cacheAt w (endIndex w - capacity w div 4) = Some q"
    by blast
  have unf: "resizeCacheLocked t w =
      (if t - RecordTime old < eventFreshDuration
       then (if g > capacity w then doCacheResizeLocked g w else Some w)
       else if t - RecordTime q > eventFreshDuration
            then (if h < capacity w then doCacheResizeLocked h w else Some w)
            else Some w)"
    unfolding resizeCacheLocked_def Let_def g_def h_def using full old q by simp
  have grow: "capacity w < g \<Longrightarrow> \<exists>w'. doCacheResizeLocked g w = Some w' \<and> resized w w'"
    using doCacheResizeLocked_resized_grow [OF inv full g_def] by blast
  have shrink: "h < capacity w \<Longrightarrow> \<exists>w'. doCacheResizeLocked h w = Some w' \<and> resized w w'"
    using doCacheResizeLocked_resized_shrink [OF inv full h_def] by blast
  show ?thesis
    unfolding unf using grow shrink resized_refl [OF inv] by auto
qed

lemma updateCache_ok:
  assumes inv: "ring_inv w"
  shows "\<exists>w1 w'. resizeCacheLocked (RecordTime event) w = Some w1 \<and> resized w w1
           \<and> updateCache event w = Some w' \<and> appended event w1 w'"
proof -
  from resizeCacheLocked_resized [OF inv] obtain w1 where
    r: "resizeCacheLocked (RecordTime event) w = Some w1" and rz: "resized w w1"
    by blast
  from rz have inv1: "ring_inv w1" by (simp add: resized_def)
  from inv1 have c0: "0 < capacity w1" and len: "length (cache w1) = capacity w1"
    and se: "startIndex w1 \<le> endIndex w1" and ec: "endIndex w1 \<le> startIndex w1 + capacity w1"
    and lb: "0 < lowerBoundCapacity w1"
    by (simp_all add: ring_inv_def)
  let ?j = "endIndex w1 mod capacity w1"
  show ?thesis
  proof (cases "isCacheFullLocked w1")
    case full: True
    from ring_inv_full_oldest [OF inv1 full] obtain old where
      old: "cacheAt w1 (startIndex w1) = Some old" by blast
    let ?w' = "w1\<lparr>continueCache := cleanup (ResourceVersion old) (continueCache w1),
                   startIndex := startIndex w1 + 1,
                   cache := (cache w1)[?j := Some event], endIndex := endIndex w1 + 1\<rparr>"
    have u: "updateCache event w = Some ?w'"
      using r full old c0 len by (simp add: updateCache_def)
    have e: "endIndex w1 = startIndex w1 + capacity w1"
      using full by (simp add: isCacheFullLocked_def)
    have at_e: "cacheAt ?w' (endIndex w1) = Some event"
      using c0 len by (simp add: cacheAt_def)
    have keep: "\<forall>i. startIndex w1 + 1 \<le> i \<and> i < endIndex w1 \<longrightarrow> cacheAt ?w' i = cacheAt w1 i"
    proof (intro allI impI)
      fix i assume i: "startIndex w1 + 1 \<le> i \<and> i < endIndex w1"
      with e have "i mod capacity w1 \<noteq> endIndex w1 mod capacity w1"
        by (intro mod_window_neq) auto
      then show "cacheAt ?w' i = cacheAt w1 i"
        using c0 len by (simp add: cacheAt_def)
    qed
    have some: "\<forall>i. startIndex w1 + 1 \<le> i \<and> i < endIndex w1 + 1 \<longrightarrow> cacheAt ?w' i \<noteq> None"
    proof (intro allI impI)
      fix i assume i: "startIndex w1 + 1 \<le> i \<and> i < endIndex w1 + 1"
      show "cacheAt ?w' i \<noteq> None"
      proof (cases "i = endIndex w1")
        case True
        with at_e show ?thesis by simp
      next
        case False
        with i have "startIndex w1 \<le> i" "i < endIndex w1" by auto
        from ring_inv_slot [OF inv1 this] keep i False show ?thesis by auto
      qed
    qed
    have "ring_inv ?w'"
      using some c0 len e lb by (simp add: ring_inv_def list_all_iff)
    moreover have "\<exists>cc s nc. ?w' = w1\<lparr>continueCache := cc, startIndex := s, cache := nc,
                             endIndex := endIndex w1 + 1\<rparr>" by blast
    ultimately have "appended event w1 ?w'"
      unfolding appended_def using at_e keep full old by (simp add: list_all_iff)
    with r rz u show ?thesis by blast
  next
    case nf: False
    let ?w' = "w1\<lparr>cache := (cache w1)[?j := Some event], endIndex := endIndex w1 + 1\<rparr>"
    have u: "updateCache event w = Some ?w'"
      using r nf c0 len by (simp add: updateCache_def)
    have e: "endIndex w1 < startIndex w1 + capacity w1"
      using nf ec by (simp add: isCacheFullLocked_def)
    have at_e: "cacheAt ?w' (endIndex w1) = Some event"
      using c0 len by (simp add: cacheAt_def)
    have keep: "\<forall>i. startIndex w1 \<le> i \<and> i < endIndex w1 \<longrightarrow> cacheAt ?w' i = cacheAt w1 i"
    proof (intro allI impI)
      fix i assume i: "startIndex w1 \<le> i \<and> i < endIndex w1"
      with e have "i mod capacity w1 \<noteq> endIndex w1 mod capacity w1"
        by (intro mod_window_neq) auto
      then show "cacheAt ?w' i = cacheAt w1 i"
        using c0 len by (simp add: cacheAt_def)
    qed
    have some: "\<forall>i. startIndex w1 \<le> i \<and> i < endIndex w1 + 1 \<longrightarrow> cacheAt ?w' i \<noteq> None"
    proof (intro allI impI)
      fix i assume i: "startIndex w1 \<le> i \<and> i < endIndex w1 + 1"
      show "cacheAt ?w' i \<noteq> None"
      proof (cases "i = endIndex w1")
        case True
        with at_e show ?thesis by simp
      next
        case False
        with i have "startIndex w1 \<le> i" "i < endIndex w1" by auto
        from ring_inv_slot [OF inv1 this] keep i False show ?thesis by auto
      qed
    qed
    have "ring_inv ?w'"
      using some c0 len e se lb by (simp add: ring_inv_def list_all_iff)
    moreover have "\<exists>cc s nc. ?w' = w1\<lparr>continueCache := cc, startIndex := s, cache := nc,
                             endIndex := endIndex w1 + 1\<rparr>"
    proof -
      have "?w' = w1\<lparr>continueCache := continueCache w1, startIndex := startIndex w1,
                         cache := (cache w1)[?j := Some event], endIndex := endIndex w1 + 1\<rparr>"
        by simp
      then show ?thesis by blast
    qed
    ultimately have "appended event w1 ?w'"
      unfolding appended_def using at_e keep nf by (simp add: list_all_iff)
    with r rz u show ?thesis by blast
  qed
qed

section \<open>The growth of a full ring\<close>

lemma resized_frame:
  assumes "resized w w1"
  shows "endIndex w1 = endIndex w" "continueCache w1 = continueCache w"
    "lowerBoundCapacity w1 = lowerBoundCapacity w" "upperBoundCapacity w1 = upperBoundCapacity w"
    "store w1 = store w" "resourceVersion w1 = resourceVersion w"
    "listResourceVersion w1 = listResourceVersion w" "handled w1 = handled w"
    "eventHandler w1 = eventHandler w"
  using assms by (auto simp: resized_def)

lemma appended_frame:
  assumes "appended event w1 w'"
  shows "endIndex w' = endIndex w1 + 1" "capacity w' = capacity w1"
    "lowerBoundCapacity w' = lowerBoundCapacity w1" "upperBoundCapacity w' = upperBoundCapacity w1"
    "store w' = store w1" "resourceVersion w' = resourceVersion w1"
    "listResourceVersion w' = listResourceVersion w1" "handled w' = handled w1"
    "eventHandler w' = eventHandler w1"
  using assms by (auto simp: appended_def)

lemma resizeCacheLocked_grow:
  assumes inv: "ring_inv w" and full: "isCacheFullLocked w"
    and old: "cacheAt w (startIndex w) = Some oldest"
    and fresh: "t - RecordTime oldest < eventFreshDuration"
    and g: "g = min (capacity w * 2) (upperBoundCapacity w)" "capacity w < g"
  shows "\<exists>w1. resizeCacheLocked t w = Some w1 \<and> ring_inv w1 \<and> capacity w1 = g
           \<and> startIndex w1 = startIndex w \<and> endIndex w1 = endIndex w
           \<and> continueCache w1 = continueCache w
           \<and> (\<forall>i. startIndex w \<le> i \<and> i < endIndex w \<longrightarrow> cacheAt w1 i = cacheAt w i)"
proof -
  from g(2) have c0: "0 < g" and nlt: "\<not> g < capacity w" by linarith+
  have unf: "resizeCacheLocked t w = doCacheResizeLocked g w"
    unfolding resizeCacheLocked_def Let_def g(1) [symmetric] using full old fresh g(2) by simp
  from doCacheResizeLocked_inv [OF inv c0] nlt obtain nc where
    res: "doCacheResizeLocked g w = Some (w\<lparr>startIndex := startIndex w, cache := nc, capacity := g\<rparr>)"
    and ri: "ring_inv (w\<lparr>startIndex := startIndex w, cache := nc, capacity := g\<rparr>)"
    and at: "\<forall>i. startIndex w \<le> i \<and> i < endIndex w
               \<longrightarrow> cacheAt (w\<lparr>startIndex := startIndex w, cache := nc, capacity := g\<rparr>) i = cacheAt w i"
    by auto
  show ?thesis
    unfolding unf res using ri at by simp
qed

lemma updateCache_grow:
  assumes inv: "ring_inv w" and full: "isCacheFullLocked w"
    and old: "cacheAt w (startIndex w) = Some oldest"
    and fresh: "RecordTime event - RecordTime oldest < eventFreshDuration"
    and g: "g = min (capacity w * 2) (upperBoundCapacity w)" "capacity w < g"
  shows "\<exists>w'. updateCache event w = Some w' \<and> capacity w' = g
           \<and> startIndex w' = startIndex w \<and> endIndex w' = endIndex w + 1
           \<and> continueCache w' = continueCache w
           \<and> ringEvents w' = ringEvents w @ [Some event]"
proof -
  from resizeCacheLocked_grow [OF inv full old fresh g] obtain w1 where
    r: "resizeCacheLocked (RecordTime event) w = Some w1" and c1: "capacity w1 = g"
    and s1: "startIndex w1 = startIndex w" and e1: "endIndex w1 = endIndex w"
    and cc1: "continueCache w1 = continueCache w"
    and at1: "\<forall>i. startIndex w \<le> i \<and> i < endIndex w \<longrightarrow> cacheAt w1 i = cacheAt w i"
    by blast
  from updateCache_ok [OF inv, of event] r obtain w' where
    u: "updateCache event w = Some w'" and ap: "appended event w1 w'"
    by auto
  from full g(2) c1 s1 e1 have nf: "\<not> isCacheFullLocked w1"
    by (simp add: isCacheFullLocked_def)
  from ap nf have s': "startIndex w' = startIndex w1" and cc': "continueCache w' = continueCache w1"
    and ate: "cacheAt w' (endIndex w1) = Some event"
    and at': "\<forall>i. startIndex w' \<le> i \<and> i < endIndex w1 \<longrightarrow> cacheAt w' i = cacheAt w1 i"
    by (simp_all add: appended_def list_all_iff)
  from inv have se: "startIndex w \<le> endIndex w" by (simp add: ring_inv_def)
  have "map (cacheAt w') [startIndex w..<endIndex w] = map (cacheAt w) [startIndex w..<endIndex w]"
    using at' at1 s' s1 e1 by (intro map_cong) auto
  then have "ringEvents w' = ringEvents w @ [Some event]"
    using se ate e1 s' s1 appended_frame(1) [OF ap] by (simp add: ringEvents_def)
  with u c1 s' s1 e1 cc' cc1 appended_frame(1,2) [OF ap] show ?thesis by simp
qed

lemma ring_inv_full_ring: "ring_inv full_ring"
  by (simp add: ring_inv_def full_ring_def ex_cache_def newWatchCache_def cacheAt_def
        defaultLowerBoundCapacity_def list_all_iff del: upt_rec_numeral)

lemma full_ring_facts:
  "isCacheFullLocked full_ring" "cacheAt full_ring (startIndex full_ring) = Some (ex_event 100 0)"
  "capacity full_ring = defaultLowerBoundCapacity"
  "upperBoundCapacity full_ring = defaultUpperBoundCapacity"
  "RecordTime (ex_event 200 1000000000) - RecordTime (ex_event 100 0) < eventFreshDuration"
  "startIndex full_ring = 0" "endIndex full_ring = 100"
  "continueCache full_ring 100 = Some (btreeStore_Clone ex_store)"
  by (simp_all add: full_ring_def ex_cache_def newWatchCache_def cacheAt_def isCacheFullLocked_def
        defaultLowerBoundCapacity_def defaultUpperBoundCapacity_def ex_event_def
        eventFreshDuration_def del: upt_rec_numeral)

text \<open>
  Claim C4, as amended.  When the ring is full at its first capacity of 100 and one more
  event is appended whose record time is within \<open>eventFreshDuration\<close> of the oldest event
  held, the capacity grows to 200 before the event is written.  The grown ring is no
  longer full, so nothing is evicted: \<open>startIndex\<close> stays where it was, \<open>endIndex\<close>
  advances by one, the ring holds every event it held and then the new one, and the
  continue cache is left as it was.
\<close>

theorem C4_append_to_full_ring:
  assumes "ring_inv w" and "isCacheFullLocked w"
    and "capacity w = defaultLowerBoundCapacity"
    and "upperBoundCapacity w = defaultUpperBoundCapacity"
    and "cacheAt w (startIndex w) = Some oldest"
    and "RecordTime event - RecordTime oldest < eventFreshDuration"
  shows "\<exists>w'. updateCache event w = Some w' \<and> capacity w' = 200
           \<and> startIndex w' = startIndex w \<and> endIndex w' = endIndex w + 1
           \<and> continueCache w' = continueCache w
           \<and> ringEvents w' = ringEvents w @ [Some event]"
proof -
  have g: "(200::nat) = min (capacity w * 2) (upperBoundCapacity w)" "capacity w < 200"
    using assms(3,4) by (simp_all add: defaultLowerBoundCapacity_def defaultUpperBoundCapacity_def)
  from updateCache_grow [OF assms(1,2,5,6) g] show ?thesis .
qed

theorem C4_append_to_full_ring_witness:
  "ring_inv full_ring \<and> isCacheFullLocked full_ring
   \<and> (\<exists>w'. updateCache (ex_event 200 1000000000) full_ring = Some w' \<and> capacity w' = 200
         \<and> startIndex w' = startIndex full_ring \<and> endIndex w' = endIndex full_ring + 1
         \<and> continueCache w' = continueCache full_ring
         \<and> ringEvents w' = ringEvents full_ring @ [Some (ex_event 200 1000000000)])"
  using C4_append_to_full_ring [OF ring_inv_full_ring full_ring_facts(1,3,4,2,5)]
    ring_inv_full_ring full_ring_facts(1)
  by blast

text \<open>
  The ring that holds the events of resource versions 100 to 199 and a continue-cache
  entry under 100 receives the event of resource version 200, recorded one second after
  the oldest: \<open>startIndex\<close> is 0 before and after, the first event held is still the one
  of resource version 100, and the continue-cache entry under 100 is still there.
\<close>

theorem C4_no_eviction_counterexample:
  "\<exists>w'. updateCache (ex_event 200 1000000000) full_ring = Some w'
      \<and> startIndex full_ring = 0 \<and> startIndex w' = 0
      \<and> hd (ringEvents w') = Some (ex_event 100 0)
      \<and> continueCache w' 100 = Some (btreeStore_Clone ex_store)"
proof -
  have g: "(200::nat) = min (capacity full_ring * 2) (upperBoundCapacity full_ring)"
    "capacity full_ring < 200"
    using full_ring_facts(3,4)
    by (simp_all add: defaultLowerBoundCapacity_def defaultUpperBoundCapacity_def)
  from updateCache_grow [OF ring_inv_full_ring full_ring_facts(1,2,5) g] obtain w' where
    u: "updateCache (ex_event 200 1000000000) full_ring = Some w'"
    and s: "startIndex w' = startIndex full_ring"
    and cc: "continueCache w' = continueCache full_ring"
    and re: "ringEvents w' = ringEvents full_ring @ [Some (ex_event 200 1000000000)]"
    by blast
  have "hd (ringEvents full_ring) = Some (ex_event 100 0)" "ringEvents full_ring \<noteq> []"
    using full_ring_facts(2)
    by (simp_all add: ringEvents_def full_ring_facts(6,7) upt_rec [of 0 100] del: upt_rec_numeral)
  with re have "hd (ringEvents w') = Some (ex_event 100 0)" by simp
  with u s cc full_ring_facts(6,8) show ?thesis by simp
qed

section \<open>The freshness gate and the continue token\<close>

lemma waitUntilFreshAndBlock_loop_dropWhile:
  "waitUntilFreshAndBlock_loop rver snaps =
     (case dropWhile (\<lambda>(w, since). resourceVersion w < rver \<and> since < blockTimeout) snaps of
        [] \<Rightarrow> Blocked
      | (w, since) # rest \<Rightarrow>
          if resourceVersion w < rver
          then Failed (TooLargeResourceVersion rver (resourceVersion w) 1) w
          else Acquired w)"
proof (induction snaps)
  case Nil
  show ?case by simp
next
  case (Cons x snaps)
  obtain w since where x: "x = (w, since)" by (cases x)
  show ?case
  proof (cases "resourceVersion w < rver \<and> since < blockTimeout")
    case True
    with Cons x show ?thesis by simp
  next
    case False
    then consider "\<not> resourceVersion w < rver"
      | "resourceVersion w < rver" "blockTimeout \<le> since"
      by fastforce
    then show ?thesis
    proof cases
      case 1
      with x show ?thesis by simp
    next
      case 2
      with x show ?thesis by (simp add: resourceVersionTooHighRetrySeconds_def)
    qed
  qed
qed

lemma waitUntilFreshAndBlock_loop_Blocked:
  "(waitUntilFreshAndBlock_loop rver snaps = Blocked) =
     list_all (\<lambda>(w, since). resourceVersion w < rver \<and> since < blockTimeout) snaps"
proof (induction snaps)
  case Nil
  show ?case by simp
next
  case (Cons x snaps)
  obtain w since where x: "x = (w, since)" by (cases x)
  show ?case
  proof (cases "resourceVersion w < rver \<and> since < blockTimeout")
    case True
    with Cons x show ?thesis by simp
  next
    case False
    then consider "\<not> resourceVersion w < rver"
      | "resourceVersion w < rver" "blockTimeout \<le> since"
      by fastforce
    then show ?thesis
    proof cases
      case 1
      with x show ?thesis by simp
    next
      case 2
      with x show ?thesis by simp
    qed
  qed
qed

text \<open>
  Claim C7.  For the requested resource version 0 the gate starts no wake-up goroutine
  and returns at the first snapshot, with the lock held.  For a requested resource
  version above 0 it starts the goroutine and waits through the snapshots in which the
  advertised resource version is below the requested one and less than three seconds
  have passed; at the first other snapshot it returns, with the lock if the cache is
  fresh enough, and otherwise with \<open>TooLargeResourceVersion\<close> carrying the requested
  and the current resource version and a retry after one second.  It is still blocked
  exactly when no snapshot is fresh enough or past the timeout.
\<close>

theorem C7_freshness_gate:
  "waitUntilFreshAndBlock 0 ((w0, since0) # rest0) = (False, Acquired w0)
   \<and> waitUntilFreshAndBlock rver snaps =
       (rver \<noteq> 0,
        case dropWhile (\<lambda>(w, since). resourceVersion w < rver \<and> since < 3 * 1000000000) snaps of
          [] \<Rightarrow> Blocked
        | (w, since) # rest \<Rightarrow>
            if resourceVersion w < rver
            then Failed (TooLargeResourceVersion rver (resourceVersion w) 1) w
            else Acquired w)
   \<and> (snd (waitUntilFreshAndBlock rver snaps) = Blocked) =
       list_all (\<lambda>(w, since). resourceVersion w < rver \<and> since < 3 * 1000000000) snaps"
proof -
  have a: "waitUntilFreshAndBlock 0 ((w0, since0) # rest0) = (False, Acquired w0)"
    by (simp add: waitUntilFreshAndBlock_def)
  have b: "(0 < rver) = (rver \<noteq> 0)" by (simp add: word_gt_0)
  show ?thesis
    using a b waitUntilFreshAndBlock_loop_dropWhile [of rver snaps]
      waitUntilFreshAndBlock_loop_Blocked [of rver snaps]
    by (simp add: waitUntilFreshAndBlock_def blockTimeout_def)
qed

theorem C7_freshness_gate_witness:
  "waitUntilFreshAndBlock 20
      [(ex_cache\<lparr>resourceVersion := 10\<rparr>, 0), (ex_cache\<lparr>resourceVersion := 20\<rparr>, 50000000)]
     = (True, Acquired (ex_cache\<lparr>resourceVersion := 20\<rparr>))
   \<and> waitUntilFreshAndBlock 11
      [(ex_cache\<lparr>resourceVersion := 10\<rparr>, 0), (ex_cache\<lparr>resourceVersion := 10\<rparr>, 3000000000)]
     = (True, Failed (TooLargeResourceVersion 11 10 1) (ex_cache\<lparr>resourceVersion := 10\<rparr>))"
  using
    C7_freshness_gate [of ex_cache 0 "[]" 20
      "[(ex_cache\<lparr>resourceVersion := 10\<rparr>, 0), (ex_cache\<lparr>resourceVersion := 20\<rparr>, 50000000)]"]
    C7_freshness_gate [of ex_cache 0 "[]" 11
      "[(ex_cache\<lparr>resourceVersion := 10\<rparr>, 0), (ex_cache\<lparr>resourceVersion := 10\<rparr>, 3000000000)]"]
  by simp

text \<open>
  Claim C8.  For a token of the recognised version, \<open>decodeContinue\<close> fails when the
  resource version is 0 and when the start key is empty; otherwise it puts a slash in
  front of the start key unless it has one, fails when \<open>path.Clean\<close> changes that key,
  and else returns the key prefix followed by the cleaned key without its first byte,
  with the resource version of the token.
\<close>

theorem C8_decodeContinue:
  assumes "unmarshal v = Inr c" and "APIVersion c = ''meta.k8s.io/v1''"
  shows "decodeContinue unmarshal v keyPrefix =
           (if ResourceVersion_t c = 0 then Inl ContinueBadResourceVersion
            else if StartKey c = [] then Inl ContinueEmptyStartKey
            else if path_Clean (if hd (StartKey c) = CHR ''/'' then StartKey c else CHR ''/'' # StartKey c)
                      \<noteq> (if hd (StartKey c) = CHR ''/'' then StartKey c else CHR ''/'' # StartKey c)
                 then Inl (ContinueBadKey (StartKey c))
            else Inr (keyPrefix
                        @ tl (path_Clean (if hd (StartKey c) = CHR ''/'' then StartKey c
                                          else CHR ''/'' # StartKey c)),
                      ResourceVersion_t c))"
proof (cases "StartKey c")
  case Nil
  with assms show ?thesis by (simp add: decodeContinue_def)
next
  case (Cons x xs)
  then have "HasPrefix (StartKey c) ''/'' = (hd (StartKey c) = CHR ''/'')"
    by (simp add: HasPrefix_def)
  with assms Cons show ?thesis
    by (simp add: decodeContinue_def Let_def drop_Suc)
qed

lemma path_Clean_dotdot: "path_Clean ''/a/../b'' = ''/b''"
  by (simp add: path_Clean_def Clean_backtrack.simps)

lemma path_Clean_canonical: "path_Clean ''/a/b'' = ''/a/b''"
  by (simp add: path_Clean_def)

theorem C8_decodeContinue_witness:
  "decodeContinue (\<lambda>s. Inr \<lparr>APIVersion = ''meta.k8s.io/v1'', ResourceVersion_t = 15, StartKey = ''a/../b''\<rparr>)
       ''token'' ''/registry/pods/'' = Inl (ContinueBadKey ''a/../b'')
   \<and> decodeContinue (\<lambda>s. Inr \<lparr>APIVersion = ''meta.k8s.io/v1'', ResourceVersion_t = 15, StartKey = ''a/b''\<rparr>)
       ''token'' ''/registry/pods/'' = Inr (''/registry/pods/a/b'', 15)"
  using
    C8_decodeContinue [of "\<lambda>s. Inr \<lparr>APIVersion = ''meta.k8s.io/v1'', ResourceVersion_t = 15, StartKey = ''a/../b''\<rparr>"
      "''token''" "\<lparr>APIVersion = ''meta.k8s.io/v1'', ResourceVersion_t = 15, StartKey = ''a/../b''\<rparr>"
      "''/registry/pods/''"]
    C8_decodeContinue [of "\<lambda>s. Inr \<lparr>APIVersion = ''meta.k8s.io/v1'', ResourceVersion_t = 15, StartKey = ''a/b''\<rparr>"
      "''token''" "\<lparr>APIVersion = ''meta.k8s.io/v1'', ResourceVersion_t = 15, StartKey = ''a/b''\<rparr>"
      "''/registry/pods/''"]
  by (simp add: path_Clean_dotdot path_Clean_canonical)

section \<open>The continue cache\<close>

lemmas ex_defs = ex_store_def ex_cache_def ex_unmarshal_def run_def step_def watchCache_Add_def
  processEvent_def objectToVersionedRuntimeObject_def newWatchCache_def updateCache_def
  resizeCacheLocked_def isCacheFullLocked_def cacheAt_def btreeStore_Get_def btreeStore_Add_def
  addOrUpdateLocked_def updateIndicesLocked_def storeElementKey_def Less_def
  defaultLowerBoundCapacity_def defaultUpperBoundCapacity_def
  WaitUntilFreshAndList_def waitUntilFreshAndBlock_def btreeStore_Clone_def
  btreeStore_LimitPrefixRead_def tree_AscendGreaterOrEqual_def LimitPrefixRead_iter_def
  HasPrefix_def HasSuffix_def watchCache_Replace_def btreeStore_Replace_def ringEvents_def
  getRVFromContinue_def cleanup_def src_cache_def newBtreeStore_def RWMutex_RLock_def
  RWMutex_free_def RWMutex_Unlock_def

text \<open>
  Claim C2 on the code.  A new cache has completed \<open>Replace\<close> at resource version 15, so
  it advertises 15.  A list with limit 2 and no continue token asks for resource version
  10: the clone is kept under 10, the requested resource version, and nothing is kept
  under 15; the call then ends in the fatal error of \<open>LimitPrefixRead\<close>.  A list whose
  token encodes resource version 15 asks for resource version 10: the continue cache is
  looked up under 10, and the call fails with \<open>ResourceExpired\<close> for 10.
\<close>

theorem C2_continue_cache_keyed_by_requested_rv:
  "resourceVersion (snd (watchCache_Replace [] ''15'' src_cache)) = 15
   \<and> (\<exists>w'. WaitUntilFreshAndList ex_unmarshal 10 ''/'' \<lparr>Limit = 2, Continue = []\<rparr>
            [(snd (watchCache_Replace [] ''15'' src_cache), 0)]
              = Some (Inl FatalUnlockOfUnlockedRWMutex, w')
         \<and> continueCache w' 10 = Some (btreeStore_Clone (newBtreeStore storeElementKey [] 2))
         \<and> continueCache w' 15 = None)
   \<and> getRVFromContinue ex_unmarshal ''b'' = Inr 15
   \<and> WaitUntilFreshAndList ex_unmarshal 10 ''/'' \<lparr>Limit = 2, Continue = ''b''\<rparr>
        [(snd (watchCache_Replace [] ''15'' src_cache), 0)]
      = Some (Inl (ResourceExpired (TooOld 10)), snd (watchCache_Replace [] ''15'' src_cache))"
  by (simp add: ex_defs Let_def)











section \<open>The capacity of the ring\<close>

lemma cap_step_refl: "cap_step w w"
  by (simp add: cap_step_def)

lemma doCacheResizeLocked_cap:
  "doCacheResizeLocked cap w = Some w' \<Longrightarrow>
     capacity w' = cap \<and> lowerBoundCapacity w' = lowerBoundCapacity w
       \<and> upperBoundCapacity w' = upperBoundCapacity w"
  by (auto simp: doCacheResizeLocked_def Let_def split: option.splits if_splits)

lemma resizeCacheLocked_cap_step:
  assumes "resizeCacheLocked t w = Some w'"
  shows "cap_step w w'"
proof (cases "isCacheFullLocked w")
  case False
  with assms show ?thesis by (simp add: resizeCacheLocked_def cap_step_refl)
next
  case full: True
  define g where "g = min (capacity w * 2) (upperBoundCapacity w)"
  define h where "h = max (capacity w div 2) (lowerBoundCapacity w)"
  from assms full obtain old where old: "cacheAt w (startIndex w) = Some old"
    by (auto simp: resizeCacheLocked_def split: option.splits)
  show ?thesis
  proof (cases "t - RecordTime old < eventFreshDuration")
    case True
    have "(if g > capacity w then doCacheResizeLocked g w else Some w) = Some w'"
      using assms full old True unfolding resizeCacheLocked_def Let_def g_def [symmetric] by simp
    then show ?thesis
      using doCacheResizeLocked_cap [of g w w']
      by (auto simp: cap_step_def g_def split: if_splits)
  next
    case False
    with assms full old obtain q where q: "cacheAt w (endIndex w - capacity w div 4) = Some q"
      by (auto simp: resizeCacheLocked_def split: option.splits)
    have
      "(if t - RecordTime q > eventFreshDuration \<and> h < capacity w
        then doCacheResizeLocked h w else Some w) = Some w'"
      using assms full old False q unfolding resizeCacheLocked_def Let_def h_def [symmetric]
      by (simp split: if_splits)
    then show ?thesis
      using doCacheResizeLocked_cap [of h w w']
      by (auto simp: cap_step_def h_def split: if_splits)
  qed
qed

lemma updateCache_cap_step:
  assumes "updateCache event w = Some w'"
  shows "cap_step w w'"
proof -
  from assms obtain w1 where r: "resizeCacheLocked (RecordTime event) w = Some w1"
    by (auto simp: updateCache_def split: option.splits)
  from resizeCacheLocked_cap_step [OF r] have c1: "cap_step w w1" .
  from assms r have "capacity w' = capacity w1 \<and> lowerBoundCapacity w' = lowerBoundCapacity w1
      \<and> upperBoundCapacity w' = upperBoundCapacity w1"
    by (auto simp: updateCache_def split: option.splits if_splits)
  with c1 show ?thesis by (simp add: cap_step_def)
qed

lemma cap_step_fields:
  "cap_step w w1 \<Longrightarrow> capacity w2 = capacity w1 \<Longrightarrow> lowerBoundCapacity w2 = lowerBoundCapacity w1
     \<Longrightarrow> upperBoundCapacity w2 = upperBoundCapacity w1 \<Longrightarrow> cap_step w w2"
  by (simp add: cap_step_def)

lemma processEvent_cap_step: "cap_step w (snd (processEvent ty obj rver f now w))"
proof -
  have "snd (processEvent ty obj rver f now w) = w
        \<or> (\<exists>ev w1. updateCache ev w = Some w1
              \<and> capacity (snd (processEvent ty obj rver f now w)) = capacity w1
              \<and> lowerBoundCapacity (snd (processEvent ty obj rver f now w)) = lowerBoundCapacity w1
              \<and> upperBoundCapacity (snd (processEvent ty obj rver f now w)) = upperBoundCapacity w1)"
    by (auto simp: processEvent_def Let_def split: sum.splits prod.splits option.splits)
  then show ?thesis
    using cap_step_refl [of w] updateCache_cap_step cap_step_fields by metis
qed

lemma step_cap_step: "cap_step w (step um op w)"
proof (cases op)
  case (OpAdd obj now)
  then show ?thesis
    using processEvent_cap_step [of w]
    by (auto simp: step_def watchCache_Add_def cap_step_refl split: sum.splits)
next
  case (OpUpdate obj now)
  then show ?thesis
    using processEvent_cap_step [of w]
    by (auto simp: step_def watchCache_Update_def cap_step_refl split: sum.splits)
next
  case (OpDelete obj now)
  then show ?thesis
    using processEvent_cap_step [of w]
    by (auto simp: step_def watchCache_Delete_def cap_step_refl split: sum.splits)
next
  case (OpReplace objs rvs)
  then show ?thesis
    by (auto simp: step_def watchCache_Replace_def cap_step_def Let_def
             split: sum.splits prod.splits option.splits)
next
  case (OpUpdateResourceVersion rvs)
  then show ?thesis
    by (auto simp: step_def UpdateResourceVersion_def cap_step_def Let_def split: sum.splits)
next
  case (OpList rver key listOpts since)
  then show ?thesis
    by (auto simp: step_def WaitUntilFreshAndList_def waitUntilFreshAndBlock_def cap_step_def Let_def
                   LimitPrefixRead_never_returns
             split: sum.splits prod.splits option.splits if_splits)
qed

lemma cap_inv_step:
  assumes inv: "cap_inv w" and st: "cap_step w w'"
  shows "cap_inv w' \<and> (capacity w' = capacity w \<or> capacity w' = 2 * capacity w
                          \<or> 2 * capacity w' = capacity w)"
proof -
  from inv obtain k where k: "k \<le> 10" "capacity w = 100 * 2 ^ k"
    and lo: "lowerBoundCapacity w = 100" and up: "upperBoundCapacity w = 102400"
    by (auto simp: cap_inv_def defaultLowerBoundCapacity_def defaultUpperBoundCapacity_def)
  from st lo up have lo': "lowerBoundCapacity w' = 100" and up': "upperBoundCapacity w' = 102400"
    by (simp_all add: cap_step_def)
  have p10: "(2::nat) ^ 10 = 1024" by simp
  from st consider
      (same) "capacity w' = capacity w"
    | (grow) "capacity w' = min (capacity w * 2) 102400" "capacity w < capacity w'"
    | (shrink) "capacity w' = max (capacity w div 2) 100" "capacity w' < capacity w"
    using lo up by (auto simp: cap_step_def)
  then have "(\<exists>k'. k' \<le> 10 \<and> capacity w' = 100 * 2 ^ k')
      \<and> (capacity w' = capacity w \<or> capacity w' = 2 * capacity w \<or> 2 * capacity w' = capacity w)"
  proof cases
    case same
    with k show ?thesis by metis
  next
    case grow
    have "k < 10"
    proof (rule ccontr)
      assume "\<not> k < 10"
      with k(1) have "k = 10" by simp
      with k(2) grow show False by simp
    qed
    then have "(2::nat) ^ Suc k \<le> 2 ^ 10" by (intro power_increasing) auto
    then have le: "100 * (2::nat) ^ Suc k \<le> 102400" by simp
    with grow(1) k(2) have c': "capacity w' = 100 * 2 ^ Suc k" by simp
    from \<open>k < 10\<close> have "Suc k \<le> 10" by simp
    with c' have ex: "\<exists>k'. k' \<le> 10 \<and> capacity w' = 100 * 2 ^ k'" by blast
    from c' k(2) have "capacity w' = 2 * capacity w" by simp
    with ex show ?thesis by blast
  next
    case shrink
    have "k \<noteq> 0"
    proof
      assume "k = 0"
      with k(2) shrink show False by simp
    qed
    then obtain j where j: "k = Suc j" by (cases k) auto
    with k(2) have c: "capacity w = 2 * (100 * 2 ^ j)" by simp
    then have "capacity w div 2 = 100 * 2 ^ j" by simp
    moreover have "(100::nat) \<le> 100 * 2 ^ j" by simp
    ultimately have c': "capacity w' = 100 * 2 ^ j"
      using shrink(1) by (simp only: max_absorb1)
    from j k(1) have "j \<le> 10" by simp
    with c' have ex: "\<exists>k'. k' \<le> 10 \<and> capacity w' = 100 * 2 ^ k'" by blast
    from c c' have "2 * capacity w' = capacity w" by simp
    with ex show ?thesis by blast
  qed
  with lo' up' show ?thesis
    by (simp add: cap_inv_def defaultLowerBoundCapacity_def defaultUpperBoundCapacity_def)
qed

lemma cap_inv_new: "cap_inv (newWatchCache kf eh gaf orv prv st)"
  by (auto simp: cap_inv_def newWatchCache_def intro: exI [of _ 0])

lemma cap_inv_run: "cap_inv w \<Longrightarrow> cap_inv (run um ops w)"
proof (induction ops arbitrary: w)
  case Nil
  then show ?case by (simp add: run_def)
next
  case (Cons op ops)
  from cap_inv_step [OF Cons.prems step_cap_step [of w um op]]
  have "cap_inv (step um op w)" by simp
  from Cons.IH [OF this] show ?case by (simp add: run_def)
qed

lemma cap_inv_bounds:
  assumes "cap_inv w"
  shows "100 \<le> capacity w \<and> capacity w \<le> 102400 \<and> (\<exists>k. capacity w = 100 * 2 ^ k)"
proof -
  from assms obtain k where k: "k \<le> 10" "capacity w = 100 * 2 ^ k"
    by (auto simp: cap_inv_def defaultLowerBoundCapacity_def)
  then have "(2::nat) ^ k \<le> 2 ^ 10" by (intro power_increasing) auto
  with k show ?thesis by auto
qed

text \<open>
  Claim C9.  After every sequence of calls on a new cache the capacity is between 100
  and 102400 and is 100 times a power of two, and one more call leaves it as it is,
  doubles it or halves it.
\<close>

theorem C9_capacity_bounds:
  "capacity (newWatchCache kf eh gaf orv prv st) = 100
   \<and> 100 \<le> capacity (run um ops (newWatchCache kf eh gaf orv prv st))
   \<and> capacity (run um ops (newWatchCache kf eh gaf orv prv st)) \<le> 102400
   \<and> (\<exists>k. capacity (run um ops (newWatchCache kf eh gaf orv prv st)) = 100 * 2 ^ k)
   \<and> (capacity (step um op (run um ops (newWatchCache kf eh gaf orv prv st)))
         = capacity (run um ops (newWatchCache kf eh gaf orv prv st))
       \<or> capacity (step um op (run um ops (newWatchCache kf eh gaf orv prv st)))
         = 2 * capacity (run um ops (newWatchCache kf eh gaf orv prv st))
       \<or> 2 * capacity (step um op (run um ops (newWatchCache kf eh gaf orv prv st)))
         = capacity (run um ops (newWatchCache kf eh gaf orv prv st)))"
proof -
  let ?w = "run um ops (newWatchCache kf eh gaf orv prv st)"
  have inv: "cap_inv ?w" by (rule cap_inv_run) (rule cap_inv_new)
  have "capacity (newWatchCache kf eh gaf orv prv st) = 100"
    by (simp add: newWatchCache_def defaultLowerBoundCapacity_def)
  with cap_inv_bounds [OF inv] cap_inv_step [OF inv step_cap_step [of ?w um op]]
  show ?thesis by blast
qed

section \<open>A mutator that fails after changing the state\<close>

lemma ring_inv_new: "ring_inv (newWatchCache kf eh gaf orv prv st)"
  by (simp add: ring_inv_def newWatchCache_def defaultLowerBoundCapacity_def)

lemma keyFunc_newBtreeStore: "keyFunc (newBtreeStore kf ixs degree) = None"
  by (simp add: newBtreeStore_def)

lemma keyFunc_btreeStore_Clone: "keyFunc (btreeStore_Clone t) = None"
  by (simp add: btreeStore_Clone_def)

text \<open>
  Claim C10 on the code.  The stores that \<open>newBtreeStore\<close> and \<open>Clone\<close> build have no
  \<open>keyFunc\<close>.  On a well-formed cache with such a store, \<open>Delete\<close> for any object, its key
  in the store or not, does not return the error of the store: it panics at the call of
  the nil \<open>keyFunc\<close>.  By then the \<open>Deleted\<close> event is in the ring, at the index \<open>endIndex\<close>
  had, and the resource version of the cache is that of the object; the event handler
  is not called and the store is as before.
\<close>

theorem C10_Delete_panics_after_mutation:
  assumes "ring_inv w"
    and "ObjectResourceVersion w obj = Inr rver"
    and "keyFunc_w w obj = Inr key"
    and "getAttrsFunc w obj = Inr (ls, fs)"
    and "keyFunc (store w) = None"
  shows "\<exists>w'. watchCache_Delete (Some obj) now w = (Some RuntimePanic, w')
           \<and> endIndex w' = endIndex w + 1
           \<and> cacheAt w' (endIndex w) =
               Some \<lparr>Type = Deleted, Object_e = Some obj, ObjLabels = ls, ObjFields = fs,
                     PrevObject = None, PrevObjLabels = [], PrevObjFields = [],
                     Key_e = key, ResourceVersion = rver, RecordTime = now\<rparr>
           \<and> resourceVersion w' = rver
           \<and> handled w' = handled w
           \<and> store w' = store w"
proof -
  let ?elem = "\<lparr>Key = key, Object = obj, Labels = ls, Fields = fs\<rparr>"
  let ?ev = "\<lparr>Type = Deleted, Object_e = Some obj, ObjLabels = ls, ObjFields = fs,
              PrevObject = None, PrevObjLabels = [], PrevObjFields = [],
              Key_e = key, ResourceVersion = rver, RecordTime = now\<rparr>"
  from updateCache_ok [OF assms(1), of ?ev] obtain w0 w1 where
    rz: "resized w w0" and u: "updateCache ?ev w = Some w1" and ap: "appended ?ev w0 w1"
    by blast
  have st: "store w1 = store w"
    using resized_frame(5) [OF rz] appended_frame(5) [OF ap] by simp
  have e1: "endIndex w1 = endIndex w + 1"
    using resized_frame(1) [OF rz] appended_frame(1) [OF ap] by simp
  have h1: "handled w1 = handled w"
    using resized_frame(8) [OF rz] appended_frame(8) [OF ap] by simp
  have at: "cacheAt w1 (endIndex w) = Some ?ev"
    using ap resized_frame(1) [OF rz] by (simp add: appended_def)
  have d: "btreeStore_Delete (StoreElem ?elem) (store w) = (Some RuntimePanic, store w)"
    using assms(5) by (simp add: btreeStore_Delete_def)
  obtain p where g: "btreeStore_Get (StoreElem ?elem) (store w) = (p, False, None)"
    by (cases "tree_Get ?elem (tree (store w))") (simp_all add: btreeStore_Get_def)
  let ?w' = "w1\<lparr>resourceVersion := rver, store := store w\<rparr>"
  have res: "watchCache_Delete (Some obj) now w = (Some RuntimePanic, ?w')"
    using assms(2,3,4) g u st d
    by (simp add: watchCache_Delete_def objectToVersionedRuntimeObject_def processEvent_def Let_def)
  have "cacheAt ?w' (endIndex w) = cacheAt w1 (endIndex w)"
    by (simp add: cacheAt_def)
  with at have "cacheAt ?w' (endIndex w) = Some ?ev" by simp
  with res e1 h1 show ?thesis by simp
qed

theorem C10_Delete_panics_after_mutation_witness:
  "\<exists>w'. watchCache_Delete (Some 7) 0 src_cache = (Some RuntimePanic, w')
      \<and> endIndex w' = endIndex src_cache + 1
      \<and> cacheAt w' (endIndex src_cache) =
          Some \<lparr>Type = Deleted, Object_e = Some 7, ObjLabels = [], ObjFields = [],
                PrevObject = None, PrevObjLabels = [], PrevObjFields = [],
                Key_e = ''/k'', ResourceVersion = 7, RecordTime = 0\<rparr>
      \<and> resourceVersion w' = 7
      \<and> handled w' = handled src_cache
      \<and> store w' = store src_cache"
proof -
  have 1: "ring_inv src_cache" unfolding src_cache_def by (rule ring_inv_new)
  have 2: "ObjectResourceVersion src_cache 7 = Inr 7" by (simp add: src_cache_def newWatchCache_def)
  have 3: "keyFunc_w src_cache 7 = Inr ''/k''" by (simp add: src_cache_def newWatchCache_def)
  have 4: "getAttrsFunc src_cache 7 = Inr ([], [])" by (simp add: src_cache_def newWatchCache_def)
  have 5: "keyFunc (store src_cache) = None"
    by (simp add: src_cache_def newWatchCache_def keyFunc_newBtreeStore)
  from C10_Delete_panics_after_mutation [OF 1 2 3 4 5, of 0] show ?thesis .
qed

section \<open>Events since a resource version\<close>














end
